theory Spec2Isabelle
  imports Main "HOL-Library.Char_ord" "HOL-Library.List_Lexorder" "HOL-Library.Sublist"
begin

section \<open>Python values and string primitives used by \<open>ota_updater.py\<close>\<close>

text \<open>
  Strings and byte strings are both \<open>string\<close> (lists of 8-bit characters): MicroPython
  keeps \<open>str\<close> as UTF-8 bytes, and compares and searches it bytewise. The order on
  \<open>string\<close> is the lexicographic order of \<open>HOL-Library.List_Lexorder\<close> over the byte
  order of \<open>HOL-Library.Char_ord\<close>, which is Python's \<open>a < b\<close> on \<open>str\<close>.
\<close>

datatype error =
  OSError | ValueError | TypeError | KeyError | IndexError | AttributeError
  | NotImplementedError | AssertionError | RuntimeError | NameError

text \<open>The result of \<open>ujson.loads\<close>; Python's \<open>None\<close> is \<open>JNull\<close>.\<close>

datatype json =
  JNull | JBool bool | JNum int | JStr string | JArr "json list" | JObj "(string \<times> json) list"

text \<open>Truthiness, as tested by \<open>if not latest_version\<close>.\<close>

fun truthy :: "json \<Rightarrow> bool" where
  "truthy JNull = False"
| "truthy (JBool b) = b"
| "truthy (JNum n) = (n \<noteq> 0)"
| "truthy (JStr s) = (s \<noteq> [])"
| "truthy (JArr xs) = (xs \<noteq> [])"
| "truthy (JObj kv) = (kv \<noteq> [])"

text \<open>\<open>sub in s\<close> on strings: \<open>sub\<close> occurs in \<open>s\<close> as a contiguous block.\<close>

fun contains :: "string \<Rightarrow> string \<Rightarrow> bool" where
  "contains sub [] = (sub = [])"
| "contains sub (c # cs) = (prefix sub (c # cs) \<or> contains sub cs)"

definition startswith :: "string \<Rightarrow> string \<Rightarrow> bool" where
  "startswith s p = prefix p s"

text \<open>
  \<open>s.replace(old, new)\<close>: the occurrences of \<open>old\<close> are replaced from left to right,
  without overlap. For an empty \<open>old\<close>, Python puts \<open>new\<close> before every character
  and at the end.
\<close>

function replace :: "string \<Rightarrow> string \<Rightarrow> string \<Rightarrow> string" where
  "replace [] old new = (if old = [] then new else [])"
| "replace (c # cs) old new =
     (if old = [] then new @ c # replace cs old new
      else if prefix old (c # cs) then new @ replace (drop (length old) (c # cs)) old new
      else c # replace cs old new)"
  by pat_completeness auto
termination
  by (relation "measure (\<lambda>(s, old, new). length s)") auto

definition isspace :: "char \<Rightarrow> bool" where
  "isspace c = (c \<in> set [CHR '' '', CHR 0x09, CHR 0x0A, CHR 0x0D, CHR 0x0B, CHR 0x0C])"

text \<open>\<open>s.rstrip()\<close> and \<open>s.rstrip('/')\<close>.\<close>

definition rstrip :: "string \<Rightarrow> string" where
  "rstrip s = rev (dropWhile isspace (rev s))"

definition rstrip_char :: "char \<Rightarrow> string \<Rightarrow> string" where
  "rstrip_char c s = rev (dropWhile (\<lambda>x. x = c) (rev s))"

text \<open>
  \<open>s.split(sep, maxsplit)\<close> for a one-character separator: at most \<open>maxsplit\<close> cuts,
  from the left; the rest of the string is the last element.
\<close>

fun split_max :: "char \<Rightarrow> nat \<Rightarrow> string \<Rightarrow> string list" where
  "split_max sep 0 s = [s]"
| "split_max sep (Suc n) s =
     (if sep \<in> set s
      then takeWhile (\<lambda>c. c \<noteq> sep) s # split_max sep n (tl (dropWhile (\<lambda>c. c \<noteq> sep) s))
      else [s])"

text \<open>
  \<open>s.split(None, maxsplit)\<close>: leading whitespace is skipped, the words are cut at runs of
  whitespace, and after \<open>maxsplit\<close> words the rest (without its leading whitespace) is
  the last element.
\<close>

fun split_ws :: "nat \<Rightarrow> string \<Rightarrow> string list" where
  "split_ws n [] = []"
| "split_ws 0 (c # cs) = [c # cs]"
| "split_ws (Suc n) (c # cs) =
     takeWhile (\<lambda>x. \<not> isspace x) (c # cs)
       # split_ws n (dropWhile isspace (dropWhile (\<lambda>x. \<not> isspace x) (c # cs)))"

definition split_none :: "nat \<Rightarrow> string \<Rightarrow> string list" where
  "split_none maxsplit s = split_ws maxsplit (dropWhile isspace s)"

text \<open>\<open>int(s)\<close> in base ten: an optional sign and at least one digit, else \<open>ValueError\<close>.\<close>

definition digit_val :: "char \<Rightarrow> nat" where
  "digit_val c = of_char c - 48"

definition is_digit :: "char \<Rightarrow> bool" where
  "is_digit c = (48 \<le> (of_char c :: nat) \<and> (of_char c :: nat) \<le> 57)"

definition digits_val :: "string \<Rightarrow> nat" where
  "digits_val ds = foldl (\<lambda>acc c. 10 * acc + digit_val c) 0 ds"

definition py_int :: "string \<Rightarrow> error + int" where
  "py_int s =
     (let body = (case s of c # cs \<Rightarrow> if c = CHR ''-'' \<or> c = CHR ''+'' then cs else s | [] \<Rightarrow> s)
      in if body = [] \<or> \<not> list_all is_digit body then Inl ValueError
         else Inr (case s of c # cs \<Rightarrow> if c = CHR ''-'' then - int (digits_val body)
                                       else int (digits_val body)
                   | [] \<Rightarrow> 0))"

text \<open>\<open>b'%d' % n\<close> for a length.\<close>

fun str_of_nat :: "nat \<Rightarrow> string" where
  "str_of_nat n =
     (if n < 10 then [char_of (48 + n)]
      else str_of_nat (n div 10) @ [char_of (48 + n mod 10)])"

declare str_of_nat.simps [simp del]

section \<open>The device: flash file system and sockets\<close>

text \<open>
  The file system is a tree. A directory keeps its entries in listing order; a file keeps
  its content. Paths are the strings the program builds: \<open>components\<close> cuts a path at
  the slashes and drops empty parts, so that the empty path is the current directory,
  which MicroPython's \<open>os.stat\<close> and \<open>os.listdir\<close> accept.
\<close>

datatype node = File string | Dir "(string \<times> node) list"

fun split_all :: "char \<Rightarrow> string \<Rightarrow> string list" where
  "split_all sep [] = [[]]"
| "split_all sep (c # cs) =
     (if c = sep then [] # split_all sep cs
      else (case split_all sep cs of [] \<Rightarrow> [[c]] | x # xs \<Rightarrow> (c # x) # xs))"

definition components :: "string \<Rightarrow> string list" where
  "components p = filter (\<lambda>x. x \<noteq> []) (split_all CHR ''/'' p)"

definition valid_name :: "string \<Rightarrow> bool" where
  "valid_name n = (n \<noteq> [] \<and> CHR ''/'' \<notin> set n)"

primrec resolve :: "string list \<Rightarrow> node \<Rightarrow> node option" where
  "resolve [] t = Some t"
| "resolve (n # ns) t =
     (case t of File c \<Rightarrow> None
      | Dir es \<Rightarrow> (case map_of es n of None \<Rightarrow> None | Some t' \<Rightarrow> resolve ns t'))"

text \<open>
  \<open>graft ps t'\<close> puts \<open>t'\<close> at the path \<open>ps\<close>: in place of the entry of that name, or as
  a new last entry of the parent directory. \<open>prune ps\<close> takes the entry at \<open>ps\<close> out of
  its parent directory. Neither creates a missing parent.
\<close>

fun graft :: "string list \<Rightarrow> node \<Rightarrow> node \<Rightarrow> node" where
  "graft [] t' t = t"
| "graft [n] t' (Dir es) =
     Dir (if n \<in> fst ` set es then map (\<lambda>e. if fst e = n then (n, t') else e) es
          else es @ [(n, t')])"
| "graft (n # m # ns) t' (Dir es) =
     Dir (map (\<lambda>e. if fst e = n then (n, graft (m # ns) t' (snd e)) else e) es)"
| "graft (n # ns) t' (File c) = File c"

fun prune :: "string list \<Rightarrow> node \<Rightarrow> node" where
  "prune [] t = t"
| "prune [n] (Dir es) = Dir (filter (\<lambda>e. fst e \<noteq> n) es)"
| "prune (n # m # ns) (Dir es) =
     Dir (map (\<lambda>e. if fst e = n then (n, prune (m # ns) (snd e)) else e) es)"
| "prune (n # ns) (File c) = File c"

text \<open>
  A socket: the bytes written to it, the bytes the peer will still send, the number of
  further I/O operations that succeed before the connection fails with \<open>OSError\<close>
  (time-out, reset), and the number of \<open>close()\<close> calls it has received.
\<close>

record sock =
  sent :: string
  inbox :: string
  budget :: nat
  closes :: nat

text \<open>
  A \<open>Response\<close> object: \<open>raw\<close> is the socket or \<open>None\<close>, \<open>cached\<close> the body once
  read. (\<open>encoding\<close> is always \<open>utf-8\<close>.)
\<close>

record response =
  raw :: "nat option"
  cached :: "string option"
  status_code :: int
  reason :: string

text \<open>
  The state of the device: the file system, every file system state it has passed
  through (oldest first; what a power loss at that moment would have left on flash),
  the sockets created so far and the \<open>Response\<close> objects created so far. A socket or a
  response is named by its index in its store, so that what a method does to it is
  seen by every holder, also when the method raises.
\<close>

record world =
  root :: node
  hist :: "node list"
  socks :: "sock list"
  resps :: "response list"


text \<open>A Python statement: it ends normally with a value or raises, and changes the device.\<close>

type_synonym 'a io = "world \<Rightarrow> (error + 'a) \<times> world"

definition return_io :: "'a \<Rightarrow> 'a io" where
  "return_io x w = (Inr x, w)"

definition raise_io :: "error \<Rightarrow> 'a io" where
  "raise_io e w = (Inl e, w)"

definition bind_io :: "'a io \<Rightarrow> ('a \<Rightarrow> 'b io) \<Rightarrow> 'b io" where
  "bind_io m f w = (case m w of (Inl e, w') \<Rightarrow> (Inl e, w') | (Inr x, w') \<Rightarrow> f x w')"

text \<open>Lifting a pure computation that may raise.\<close>

definition lift_io :: "error + 'a \<Rightarrow> 'a io" where
  "lift_io r w = (r, w)"

subsection \<open>\<open>os\<close> and file objects\<close>

definition commit :: "node \<Rightarrow> unit io" where
  "commit t w = (Inr (), w\<lparr>root := t, hist := hist w @ [root w]\<rparr>)"

definition os_stat :: "string \<Rightarrow> node io" where
  "os_stat p w =
     (case resolve (components p) (root w) of None \<Rightarrow> (Inl OSError, w) | Some t \<Rightarrow> (Inr t, w))"

definition os_listdir :: "string \<Rightarrow> string list io" where
  "os_listdir p w =
     (case resolve (components p) (root w) of
        Some (Dir es) \<Rightarrow> (Inr (map fst es), w)
      | _ \<Rightarrow> (Inl OSError, w))"

text \<open>\<open>os.ilistdir\<close> yields tuples whose second field is the type: 0x4000 or 0x8000.\<close>

definition entry_type :: "node \<Rightarrow> nat" where
  "entry_type t = (case t of Dir es \<Rightarrow> 0x4000 | File c \<Rightarrow> 0x8000)"

definition os_ilistdir :: "string \<Rightarrow> (string \<times> nat) list io" where
  "os_ilistdir p w =
     (case resolve (components p) (root w) of
        Some (Dir es) \<Rightarrow> (Inr (map (\<lambda>e. (fst e, entry_type (snd e))) es), w)
      | _ \<Rightarrow> (Inl OSError, w))"

definition os_remove :: "string \<Rightarrow> unit io" where
  "os_remove p w =
     (case resolve (components p) (root w) of
        Some (File c) \<Rightarrow> commit (prune (components p) (root w)) w
      | _ \<Rightarrow> (Inl OSError, w))"

text \<open>\<open>os.rmdir\<close> removes an empty directory only.\<close>

definition os_rmdir :: "string \<Rightarrow> unit io" where
  "os_rmdir p w =
     (case resolve (components p) (root w) of
        Some (Dir []) \<Rightarrow>
          if components p = [] then (Inl OSError, w)
          else commit (prune (components p) (root w)) w
      | _ \<Rightarrow> (Inl OSError, w))"

definition is_dir_at :: "string list \<Rightarrow> node \<Rightarrow> bool" where
  "is_dir_at ps t = (case resolve ps t of Some (Dir es) \<Rightarrow> True | _ \<Rightarrow> False)"

definition os_mkdir :: "string \<Rightarrow> unit io" where
  "os_mkdir p w =
     (let ps = components p in
      if ps \<noteq> [] \<and> resolve ps (root w) = None \<and> is_dir_at (butlast ps) (root w)
      then commit (graft ps (Dir []) (root w)) w
      else (Inl OSError, w))"

text \<open>
  \<open>os.rename\<close> moves a file or a directory with all it contains, in one step. It raises
  when the source is missing, when the target's parent directory is missing and when
  the target exists (the behaviour of the FAT driver).
\<close>

definition os_rename :: "string \<Rightarrow> string \<Rightarrow> unit io" where
  "os_rename old new w =
     (let ps = components old; qs = components new in
      case resolve ps (root w) of
        None \<Rightarrow> (Inl OSError, w)
      | Some t \<Rightarrow>
          if ps \<noteq> [] \<and> qs \<noteq> [] \<and> resolve qs (root w) = None
             \<and> is_dir_at (butlast qs) (prune ps (root w))
          then commit (graft qs t (prune ps (root w))) w
          else (Inl OSError, w))"

text \<open>
  \<open>open(path, 'w')\<close> creates the file, or empties it; \<open>write\<close> appends to it; \<open>open(path)\<close>
  followed by \<open>read()\<close> gives its content. The file object is the path.
\<close>

definition open_w :: "string \<Rightarrow> unit io" where
  "open_w p w =
     (let ps = components p in
      if ps \<noteq> [] \<and> is_dir_at (butlast ps) (root w)
         \<and> (case resolve ps (root w) of Some (Dir es) \<Rightarrow> False | _ \<Rightarrow> True)
      then commit (graft ps (File []) (root w)) w
      else (Inl OSError, w))"

definition file_write :: "string \<Rightarrow> string \<Rightarrow> unit io" where
  "file_write p data w =
     (case resolve (components p) (root w) of
        Some (File c) \<Rightarrow> commit (graft (components p) (File (c @ data)) (root w)) w
      | _ \<Rightarrow> (Inl OSError, w))"

definition open_read :: "string \<Rightarrow> string io" where
  "open_read p w =
     (case resolve (components p) (root w) of
        Some (File c) \<Rightarrow> (Inr c, w)
      | _ \<Rightarrow> (Inl OSError, w))"

subsection \<open>\<open>usocket\<close> sockets\<close>

text \<open>
  An I/O operation on a socket raises \<open>OSError\<close> when the socket is not there, is closed
  or has no budget left; otherwise it uses one unit of the budget.
\<close>

definition sock_io :: "nat \<Rightarrow> (sock \<Rightarrow> 'a \<times> sock) \<Rightarrow> 'a io" where
  "sock_io s f w =
     (if s < length (socks w) \<and> closes (socks w ! s) = 0 \<and> 0 < budget (socks w ! s)
      then (case f (socks w ! s) of
              (x, k) \<Rightarrow> (Inr x, w\<lparr>socks := (socks w)[s := k\<lparr>budget := budget k - 1\<rparr>]\<rparr>))
      else (Inl OSError, w))"

definition sock_connect :: "nat \<Rightarrow> unit io" where
  "sock_connect s = sock_io s (\<lambda>k. ((), k))"

definition wrap_socket :: "nat \<Rightarrow> unit io" where
  "wrap_socket s = sock_io s (\<lambda>k. ((), k))"

definition sock_write :: "nat \<Rightarrow> string \<Rightarrow> unit io" where
  "sock_write s data = sock_io s (\<lambda>k. ((), k\<lparr>sent := sent k @ data\<rparr>))"

text \<open>\<open>readline\<close>: up to and with the next line feed, or what is left; empty at the end.\<close>

definition first_line :: "string \<Rightarrow> string" where
  "first_line bs =
     takeWhile (\<lambda>c. c \<noteq> CHR 0x0A) bs @ take 1 (dropWhile (\<lambda>c. c \<noteq> CHR 0x0A) bs)"

definition sock_readline :: "nat \<Rightarrow> string io" where
  "sock_readline s =
     sock_io s (\<lambda>k. (first_line (inbox k),
                      k\<lparr>inbox := drop (length (first_line (inbox k))) (inbox k)\<rparr>))"

definition sock_read :: "nat \<Rightarrow> string io" where
  "sock_read s = sock_io s (\<lambda>k. (inbox k, k\<lparr>inbox := []\<rparr>))"

definition sock_close :: "nat \<Rightarrow> unit io" where
  "sock_close s w =
     (if s < length (socks w)
      then (Inr (), w\<lparr>socks := (socks w)[s := (socks w ! s)\<lparr>closes := Suc (closes (socks w ! s))\<rparr>]\<rparr>)
      else (Inl OSError, w))"

text \<open>
  What the program cannot decide: the network, the JSON codec and the depth of the
  interpreter's call stack. \<open>network n host port\<close> is the peer of the \<open>n\<close>-th socket of the
  run: \<open>None\<close> when \<open>usocket.getaddrinfo\<close> raises, else the bytes it will send and the
  socket's budget. \<open>loads\<close> is \<open>ujson.loads\<close> (\<open>None\<close>: \<open>ValueError\<close>), \<open>dumps\<close> is
  \<open>ujson.dumps\<close>. A call nested deeper than \<open>recursion_limit\<close> raises \<open>RuntimeError\<close>.
\<close>

record env =
  network :: "nat \<Rightarrow> string \<Rightarrow> int \<Rightarrow> (string \<times> nat) option"
  loads :: "string \<Rightarrow> json option"
  dumps :: "json \<Rightarrow> string"
  recursion_limit :: nat

definition usocket_socket :: "env \<Rightarrow> string \<Rightarrow> int \<Rightarrow> nat io" where
  "usocket_socket E host port w =
     (case network E (length (socks w)) host port of
        None \<Rightarrow> (Inl OSError, w)
      | Some (reply, n) \<Rightarrow>
          (Inr (length (socks w)),
           w\<lparr>socks := socks w @ [\<lparr>sent = [], inbox = reply, budget = n, closes = 0\<rparr>]\<rparr>))"

section \<open>class Response\<close>

definition Response :: "nat \<Rightarrow> nat io" where
  "Response f w =
     (Inr (length (resps w)),
      w\<lparr>resps := resps w @ [\<lparr>raw = Some f, cached = None, status_code = 0, reason = []\<rparr>]\<rparr>)"

definition set_status :: "nat \<Rightarrow> int \<Rightarrow> string \<Rightarrow> unit io" where
  "set_status r status rsn w =
     (Inr (), w\<lparr>resps := (resps w)[r := (resps w ! r)\<lparr>status_code := status, reason := rsn\<rparr>]\<rparr>)"

definition set_raw_None :: "nat \<Rightarrow> world \<Rightarrow> world" where
  "set_raw_None r w = w\<lparr>resps := (resps w)[r := (resps w ! r)\<lparr>raw := None\<rparr>]\<rparr>"

definition set_cached :: "nat \<Rightarrow> string option \<Rightarrow> world \<Rightarrow> world" where
  "set_cached r c w = w\<lparr>resps := (resps w)[r := (resps w ! r)\<lparr>cached := c\<rparr>]\<rparr>"

text \<open>
  \<open>close\<close>: \<open>if self.raw: self.raw.close(); self.raw = None\<close>, then \<open>self._cached = None\<close>.
\<close>

definition Response_close :: "nat \<Rightarrow> unit io" where
  "Response_close r w =
     (case raw (resps w ! r) of
        Some f \<Rightarrow>
          (case sock_close f w of
             (Inl e, w') \<Rightarrow> (Inl e, w')
           | (Inr u, w') \<Rightarrow> (Inr (), set_cached r None (set_raw_None r w')))
      | None \<Rightarrow> (Inr (), set_cached r None w))"

text \<open>
  \<open>content\<close>: when nothing is cached, \<open>self.raw.read()\<close> inside \<open>try\<close>, and in its
  \<open>finally\<close> part \<open>self.raw.close()\<close> and \<open>self.raw = None\<close>. With \<open>raw\<close> already \<open>None\<close>
  both \<open>read\<close> and \<open>close\<close> are attribute errors.
\<close>

definition Response_content :: "nat \<Rightarrow> string io" where
  "Response_content r w =
     (case cached (resps w ! r) of
        Some c \<Rightarrow> (Inr c, w)
      | None \<Rightarrow>
          (case raw (resps w ! r) of
             None \<Rightarrow> (Inl AttributeError, w)
           | Some f \<Rightarrow>
               (case sock_read f w of
                  (Inl e, w1) \<Rightarrow>
                    (case sock_close f w1 of
                       (Inl e', w2) \<Rightarrow> (Inl e', w2)
                     | (Inr u, w2) \<Rightarrow> (Inl e, set_raw_None r w2))
                | (Inr body, w1) \<Rightarrow>
                    (case sock_close f (set_cached r (Some body) w1) of
                       (Inl e', w2) \<Rightarrow> (Inl e', w2)
                     | (Inr u, w2) \<Rightarrow> (Inr body, set_raw_None r w2)))))"

definition Response_text :: "nat \<Rightarrow> string io" where
  "Response_text r = Response_content r"

definition Response_json :: "env \<Rightarrow> nat \<Rightarrow> json io" where
  "Response_json E r =
     bind_io (Response_content r)
       (\<lambda>body. case loads E body of None \<Rightarrow> raise_io ValueError | Some v \<Rightarrow> return_io v)"

section \<open>class HttpClient\<close>

text \<open>Lines 227 to 231: the URL is cut at its first three slashes, or at its first two.\<close>

definition parse_url :: "string \<Rightarrow> error + string \<times> string \<times> string" where
  "parse_url url =
     (case split_max CHR ''/'' 3 url of
        [proto, dummy, host, path] \<Rightarrow> Inr (proto, host, path)
      | _ \<Rightarrow>
          (case split_max CHR ''/'' 2 url of
             [proto, dummy, host] \<Rightarrow> Inr (proto, host, [])
           | _ \<Rightarrow> Inl ValueError))"

text \<open>Lines 232 to 242: the port of the scheme, or the one written after the host.\<close>

definition host_port :: "string \<Rightarrow> string \<Rightarrow> error + string \<times> int" where
  "host_port proto host =
     (if proto \<noteq> ''http:'' \<and> proto \<noteq> ''https:'' then Inl ValueError
      else if CHR '':'' \<in> set host
      then (case split_max CHR '':'' 1 host of
              [h, p] \<Rightarrow> (case py_int p of Inl e \<Rightarrow> Inl e | Inr n \<Rightarrow> Inr (h, n))
            | _ \<Rightarrow> Inl ValueError)
      else Inr (host, if proto = ''http:'' then 80 else 443))"

definition crlf :: string where
  "crlf = [CHR 0x0D, CHR 0x0A]"

text \<open>Lines 258 to 262: one header is four writes.\<close>

fun write_headers :: "nat \<Rightarrow> (string \<times> string) list \<Rightarrow> unit io" where
  "write_headers s [] = return_io ()"
| "write_headers s ((k, v) # hs) =
     bind_io (sock_write s k) (\<lambda>_.
     bind_io (sock_write s '': '') (\<lambda>_.
     bind_io (sock_write s v) (\<lambda>_.
     bind_io (sock_write s crlf) (\<lambda>_.
     write_headers s hs))))"

text \<open>
  Lines 254 to 277. \<open>headers\<close> is the dictionary in the order of its iteration, \<open>data\<close>
  and \<open>json\<close> are \<open>None\<close> or a value.
\<close>

definition send_request ::
  "env \<Rightarrow> nat \<Rightarrow> string \<Rightarrow> string \<Rightarrow> string \<Rightarrow> string option \<Rightarrow> json option
     \<Rightarrow> (string \<times> string) list \<Rightarrow> unit io" where
  "send_request E s method host path data js headers =
     bind_io (sock_write s (method @ '' /'' @ path @ '' HTTP/1.0'' @ crlf)) (\<lambda>_.
     bind_io (if ''Host'' \<notin> fst ` set headers then sock_write s (''Host: '' @ host @ crlf)
              else return_io ()) (\<lambda>_.
     bind_io (write_headers s headers) (\<lambda>_.
     bind_io (sock_write s ''User-Agent'') (\<lambda>_.
     bind_io (sock_write s '': '') (\<lambda>_.
     bind_io (sock_write s ''MicroPython OTAUpdater'') (\<lambda>_.
     bind_io (sock_write s crlf) (\<lambda>_.
     bind_io (case js of
                None \<Rightarrow> return_io data
              | Some j \<Rightarrow>
                  if data \<noteq> None then raise_io AssertionError
                  else bind_io (sock_write s (''Content-Type: application/json'' @ crlf))
                         (\<lambda>_. return_io (Some (dumps E j)))) (\<lambda>data.
     bind_io (case data of
                Some (c # cs) \<Rightarrow>
                  sock_write s (''Content-Length: '' @ str_of_nat (length (c # cs)) @ crlf)
              | _ \<Rightarrow> return_io ()) (\<lambda>_.
     bind_io (sock_write s crlf) (\<lambda>_.
     case data of Some (c # cs) \<Rightarrow> sock_write s (c # cs) | _ \<Rightarrow> return_io ()))))))))))"

text \<open>
  Lines 279 to 285: the status line. \<open>l[1]\<close> raises \<open>IndexError\<close> on a line of fewer
  than two words, \<open>int\<close> raises \<open>ValueError\<close> on a word that is no number.
\<close>

definition read_status :: "nat \<Rightarrow> (int \<times> string) io" where
  "read_status s =
     bind_io (sock_readline s) (\<lambda>l.
       case split_none 2 l of
         a # b # rest \<Rightarrow>
           (case py_int b of
              Inl e \<Rightarrow> raise_io e
            | Inr status \<Rightarrow>
                return_io (status, case rest of [] \<Rightarrow> [] | c # cs \<Rightarrow> rstrip c))
       | _ \<Rightarrow> raise_io IndexError)"

text \<open>
  Lines 286 to 295: the header lines, to the empty line or the end of the stream. In
  line 293 the message of the \<open>ValueError\<close> is \<open>'Unsupported ' + l\<close>, a \<open>str\<close> plus a
  \<open>bytes\<close> object, which MicroPython refuses with a \<open>TypeError\<close>: that is the error raised.
\<close>

lemma first_line_length: "length (first_line bs) \<le> length bs"
proof -
  have "length (takeWhile (\<lambda>c. c \<noteq> CHR 0x0A) bs) + length (dropWhile (\<lambda>c. c \<noteq> CHR 0x0A) bs)
        = length bs"
    by (metis length_append takeWhile_dropWhile_id)
  then show ?thesis
    by (simp add: first_line_def)
qed

lemma sock_readline_shorter:
  assumes "sock_readline s w = (Inr l, w')" and "l \<noteq> []"
  shows "length (inbox (socks w' ! s)) < length (inbox (socks w ! s))"
proof -
  from assms have ok: "s < length (socks w)" and l: "l = first_line (inbox (socks w ! s))"
    and w': "w' = w\<lparr>socks := (socks w)[s := (socks w ! s)\<lparr>inbox := drop (length l) (inbox (socks w ! s)),
                 budget := budget (socks w ! s) - 1\<rparr>]\<rparr>"
    by (auto simp: sock_readline_def sock_io_def split: if_splits)
  have "0 < length l"
    using assms(2) by simp
  moreover have "length l \<le> length (inbox (socks w ! s))"
    using l first_line_length by simp
  ultimately have "length (inbox (socks w ! s)) - length l < length (inbox (socks w ! s))"
    by arith
  with ok show ?thesis
    unfolding w' by simp
qed

function read_headers :: "nat \<Rightarrow> int \<Rightarrow> unit io" where
  "read_headers s status w =
     (case sock_readline s w of
        (Inl e, w') \<Rightarrow> (Inl e, w')
      | (Inr l, w') \<Rightarrow>
          if l = [] \<or> l = crlf then (Inr (), w')
          else if startswith l ''Transfer-Encoding:''
          then (if contains ''chunked'' l then (Inl TypeError, w') else read_headers s status w')
          else if startswith l ''Location:'' \<and> \<not> (200 \<le> status \<and> status \<le> 299)
          then (Inl NotImplementedError, w')
          else read_headers s status w')"
  by pat_completeness auto
termination
  by (relation "measure (\<lambda>(s, status, w). length (inbox (socks w ! s)))")
     (auto dest: sock_readline_shorter [OF sym])

declare read_headers.simps [simp del]

text \<open>\<open>try: body except OSError: handler; raise\<close>.\<close>

definition except_OSError :: "'a io \<Rightarrow> unit io \<Rightarrow> 'a io" where
  "except_OSError body handler w =
     (case body w of
        (Inl OSError, w') \<Rightarrow>
          (case handler w' of (Inl e, w'') \<Rightarrow> (Inl e, w'') | (Inr u, w'') \<Rightarrow> (Inl OSError, w''))
      | (r, w') \<Rightarrow> (r, w'))"

text \<open>Lines 249 to 295, the body of the \<open>try\<close>. (\<open>settimeout\<close> changes nothing here.)\<close>

definition request_try ::
  "env \<Rightarrow> nat \<Rightarrow> string \<Rightarrow> string \<Rightarrow> string \<Rightarrow> string \<Rightarrow> string option \<Rightarrow> json option
     \<Rightarrow> (string \<times> string) list \<Rightarrow> (int \<times> string) io" where
  "request_try E s proto method host path data js headers =
     bind_io (sock_connect s) (\<lambda>_.
     bind_io (if proto = ''https:'' then wrap_socket s else return_io ()) (\<lambda>_.
     bind_io (send_request E s method host path data js headers) (\<lambda>_.
     bind_io (read_status s) (\<lambda>(status, rsn).
     bind_io (read_headers s status) (\<lambda>_.
     return_io (status, rsn))))))"

text \<open>\<open>HttpClient.request\<close>; its value is the new \<open>Response\<close>.\<close>

definition request ::
  "env \<Rightarrow> string \<Rightarrow> string \<Rightarrow> string option \<Rightarrow> json option \<Rightarrow> (string \<times> string) list
     \<Rightarrow> nat io" where
  "request E method url data js headers =
     bind_io (lift_io (parse_url url)) (\<lambda>(proto, host0, path).
     bind_io (lift_io (host_port proto host0)) (\<lambda>(host, port).
     bind_io (usocket_socket E host port) (\<lambda>s.
     bind_io (except_OSError (request_try E s proto method host path data js headers)
                (sock_close s)) (\<lambda>(status, rsn).
     bind_io (Response s) (\<lambda>resp.
     bind_io (set_status resp status rsn) (\<lambda>_.
     return_io resp))))))"

definition get :: "env \<Rightarrow> string \<Rightarrow> nat io" where
  "get E url = request E ''GET'' url None None []"

section \<open>class OTAUpdater\<close>

record updater =
  github_repo :: string
  main_dir :: string
  module :: string

definition OTAUpdater :: "string \<Rightarrow> string \<Rightarrow> string \<Rightarrow> updater" where
  "OTAUpdater repo modl dir =
     \<lparr>github_repo =
        replace (rstrip_char CHR ''/'' repo) ''https://github.com'' ''https://api.github.com/repos'',
      main_dir = dir,
      module = rstrip_char CHR ''/'' modl\<rparr>"

definition get_module_and_path :: "updater \<Rightarrow> string \<Rightarrow> string" where
  "get_module_and_path U path = (if module U \<noteq> [] then module U @ ''/'' @ path else path)"

definition path_exists :: "string \<Rightarrow> bool io" where
  "path_exists path w =
     (case os_stat path w of
        (Inl OSError, w') \<Rightarrow> (Inr False, w')
      | (Inl e, w') \<Rightarrow> (Inl e, w')
      | (Inr st, w') \<Rightarrow> (Inr True, w'))"

text \<open>\<open>rmtree\<close>; the first argument is the call depth that is left.\<close>

fun rmtree :: "nat \<Rightarrow> string \<Rightarrow> unit io"
  and rmtree_entries :: "nat \<Rightarrow> string \<Rightarrow> (string \<times> nat) list \<Rightarrow> unit io" where
  "rmtree 0 directory = raise_io RuntimeError"
| "rmtree (Suc depth) directory =
     bind_io (os_ilistdir directory) (\<lambda>entries.
     bind_io (rmtree_entries depth directory entries) (\<lambda>_.
     os_rmdir directory))"
| "rmtree_entries depth directory [] = return_io ()"
| "rmtree_entries depth directory (entry # entries) =
     bind_io (if snd entry = 0x4000 then rmtree depth (directory @ ''/'' @ fst entry)
              else os_remove (directory @ ''/'' @ fst entry)) (\<lambda>_.
     rmtree_entries depth directory entries)"

text \<open>\<open>get_version\<close>, with \<open>version_file_name\<close> at its default.\<close>

definition get_version :: "string \<Rightarrow> string option io" where
  "get_version directory =
     bind_io (path_exists directory) (\<lambda>ex.
     if \<not> ex then return_io None
     else bind_io (os_listdir directory) (\<lambda>names.
       if ''.version'' \<in> set names
       then bind_io (open_read (directory @ ''/'' @ ''.version'')) (\<lambda>version.
            return_io (Some version))
       else return_io None))"

text \<open>\<open>x in v\<close> and \<open>v[k]\<close> for a string \<open>x\<close> or \<open>k\<close> and a decoded JSON value \<open>v\<close>.\<close>

definition py_in :: "string \<Rightarrow> json \<Rightarrow> error + bool" where
  "py_in x v =
     (case v of
        JObj kv \<Rightarrow> Inr (x \<in> fst ` set kv)
      | JArr xs \<Rightarrow> Inr (JStr x \<in> set xs)
      | JStr s \<Rightarrow> Inr (contains x s)
      | _ \<Rightarrow> Inl TypeError)"

definition py_getitem :: "json \<Rightarrow> string \<Rightarrow> error + json" where
  "py_getitem v k =
     (case v of
        JObj kv \<Rightarrow> (case map_of kv k of None \<Rightarrow> Inl KeyError | Some x \<Rightarrow> Inr x)
      | _ \<Rightarrow> Inl TypeError)"

text \<open>The elements a \<open>for\<close> loop over a decoded JSON value runs through.\<close>

definition py_iter :: "json \<Rightarrow> error + json list" where
  "py_iter v =
     (case v of
        JArr xs \<Rightarrow> Inr xs
      | JObj kv \<Rightarrow> Inr (map (\<lambda>e. JStr (fst e)) kv)
      | JStr s \<Rightarrow> Inr (map (\<lambda>c. JStr [c]) s)
      | _ \<Rightarrow> Inl TypeError)"

text \<open>\<open>v.replace(old, new)\<close> and \<open>s + v\<close>: \<open>v\<close> must be a string.\<close>

definition py_replace :: "json \<Rightarrow> string \<Rightarrow> string \<Rightarrow> error + string" where
  "py_replace v old new = (case v of JStr s \<Rightarrow> Inr (replace s old new) | _ \<Rightarrow> Inl AttributeError)"

definition py_concat :: "string \<Rightarrow> json \<Rightarrow> error + string" where
  "py_concat s v = (case v of JStr t \<Rightarrow> Inr (s @ t) | _ \<Rightarrow> Inl TypeError)"

text \<open>\<open>get_latest_version\<close>; the value \<open>None\<close> is \<open>JNull\<close>.\<close>

definition get_latest_version :: "env \<Rightarrow> updater \<Rightarrow> json io" where
  "get_latest_version E U =
     bind_io (get E (github_repo U @ ''/releases/latest'')) (\<lambda>latest_release.
     bind_io (Response_json E latest_release) (\<lambda>j.
     bind_io (lift_io (py_in ''tag_name'' j)) (\<lambda>has_tag.
     if \<not> has_tag then return_io JNull
     else bind_io (Response_json E latest_release) (\<lambda>j'.
          bind_io (lift_io (py_getitem j' ''tag_name'')) (\<lambda>version.
          bind_io (Response_close latest_release) (\<lambda>_.
          return_io version))))))"

text \<open>
  \<open>download_file\<close>. When \<open>get\<close> raises, \<open>response\<close> is unbound in the \<open>finally\<close> part and
  \<open>response.close()\<close> raises \<open>NameError\<close> in place of the first error.
\<close>

definition download_file :: "env \<Rightarrow> string \<Rightarrow> string \<Rightarrow> unit io" where
  "download_file E url path =
     bind_io (open_w path) (\<lambda>_ w.
       case get E url w of
         (Inl e, w1) \<Rightarrow> (Inl NameError, w1)
       | (Inr response, w1) \<Rightarrow>
           (case bind_io (Response_text response) (file_write path) w1 of
              (r, w2) \<Rightarrow>
                (case Response_close response w2 of
                   (Inl e', w3) \<Rightarrow> (Inl e', w3)
                 | (Inr u, w3) \<Rightarrow> (r, w3))))"

text \<open>The local path of an entry, lines 157 and 160.\<close>

definition download_path :: "updater \<Rightarrow> json \<Rightarrow> error + string" where
  "download_path U p =
     (case py_replace p (main_dir U @ ''/'') [] of
        Inl e \<Rightarrow> Inl e
      | Inr rel \<Rightarrow> Inr (get_module_and_path U (''next/'' @ rel)))"

text \<open>\<open>download_all_files\<close>; the first argument is the call depth that is left.\<close>

fun download_all_files :: "nat \<Rightarrow> env \<Rightarrow> updater \<Rightarrow> string \<Rightarrow> json \<Rightarrow> unit io"
  and download_entries :: "nat \<Rightarrow> env \<Rightarrow> updater \<Rightarrow> string \<Rightarrow> json \<Rightarrow> json list \<Rightarrow> unit io"
  where
  "download_all_files 0 E U root_url version = raise_io RuntimeError"
| "download_all_files (Suc depth) E U root_url version =
     bind_io (lift_io (py_concat (root_url @ ''?ref=refs/tags/'') version)) (\<lambda>url.
     bind_io (get E url) (\<lambda>file_list.
     bind_io (Response_json E file_list) (\<lambda>j.
     bind_io (lift_io (py_iter j)) (\<lambda>files.
     bind_io (download_entries depth E U root_url version files) (\<lambda>_.
     Response_close file_list)))))"
| "download_entries depth E U root_url version [] = return_io ()"
| "download_entries depth E U root_url version (file # files) =
     bind_io (lift_io (py_getitem file ''type'')) (\<lambda>ty.
     bind_io
       (if ty = JStr ''file''
        then bind_io (lift_io (py_getitem file ''download_url'')) (\<lambda>download_url.
             bind_io (lift_io (py_getitem file ''path'')) (\<lambda>p.
             bind_io (lift_io (download_path U p)) (\<lambda>path.
             bind_io (lift_io (py_replace download_url ''refs/tags/'' [])) (\<lambda>url.
             download_file E url path))))
        else if ty = JStr ''dir''
        then bind_io (lift_io (py_getitem file ''path'')) (\<lambda>p.
             bind_io (lift_io (download_path U p)) (\<lambda>path.
             bind_io (os_mkdir path) (\<lambda>_.
             bind_io (lift_io (py_getitem file ''name'')) (\<lambda>name.
             bind_io (lift_io (py_concat (root_url @ ''/'') name)) (\<lambda>sub_url.
             download_all_files depth E U sub_url version)))))
        else return_io ()) (\<lambda>_.
     download_entries depth E U root_url version files))"

text \<open>Lines 93 to 102, the branch that stages the update.\<close>

definition stage_update :: "env \<Rightarrow> updater \<Rightarrow> json \<Rightarrow> bool io" where
  "stage_update E U latest_version =
     bind_io (path_exists (module U)) (\<lambda>ex.
     bind_io (if \<not> ex then os_mkdir (module U) else return_io ()) (\<lambda>_.
     bind_io (os_mkdir (get_module_and_path U ''next'')) (\<lambda>_.
     bind_io (download_all_files (recursion_limit E) E U
                (github_repo U @ ''/contents/'' @ main_dir U) latest_version) (\<lambda>_.
     bind_io (open_w (get_module_and_path U ''next/.version'')) (\<lambda>_.
     bind_io (case latest_version of
                JStr v \<Rightarrow> file_write (get_module_and_path U ''next/.version'') v
              | _ \<Rightarrow> raise_io TypeError) (\<lambda>_.
     return_io True))))))"

text \<open>\<open>latest_version > current_version\<close>, for a string \<open>current_version\<close>.\<close>

definition py_gt :: "json \<Rightarrow> string \<Rightarrow> error + bool" where
  "py_gt v s = (case v of JStr t \<Rightarrow> Inr (s < t) | _ \<Rightarrow> Inl TypeError)"

definition download_updates_if_available :: "env \<Rightarrow> updater \<Rightarrow> bool io" where
  "download_updates_if_available E U =
     bind_io (get_version (get_module_and_path U (main_dir U))) (\<lambda>current_version.
     bind_io (get_latest_version E U) (\<lambda>latest_version.
     if \<not> truthy latest_version then return_io False
     else bind_io (case current_version of
                     None \<Rightarrow> return_io True
                   | Some c \<Rightarrow> if c = [] then return_io True
                              else lift_io (py_gt latest_version c)) (\<lambda>update.
          if update then stage_update E U latest_version
          else return_io False)))"

definition apply_pending_updates_if_available :: "env \<Rightarrow> updater \<Rightarrow> unit io" where
  "apply_pending_updates_if_available E U =
     bind_io (path_exists (module U)) (\<lambda>ex.
     bind_io (if ex then bind_io (os_listdir (module U)) (\<lambda>names. return_io (''next'' \<in> set names))
              else return_io False) (\<lambda>pending.
     if pending
     then bind_io (os_listdir (get_module_and_path U ''next'')) (\<lambda>names.
          if ''.version'' \<in> set names
          then bind_io (get_version (get_module_and_path U ''next'')) (\<lambda>pending_update_version.
               bind_io (path_exists (get_module_and_path U (main_dir U))) (\<lambda>ex_main.
               bind_io (if ex_main
                        then rmtree (recursion_limit E) (get_module_and_path U (main_dir U))
                        else return_io ()) (\<lambda>_.
               os_rename (get_module_and_path U ''next'') (get_module_and_path U (main_dir U)))))
          else rmtree (recursion_limit E) (get_module_and_path U ''next''))
     else return_io ()))"

section \<open>The staging path of a remote entry\<close>

lemma replace_absent: "old \<noteq> [] \<Longrightarrow> \<not> contains old s \<Longrightarrow> replace s old new = s"
  by (induction s) auto

lemma replace_length_le: "old \<noteq> [] \<Longrightarrow> length (replace s old []) \<le> length s"
proof (induction s old "[] :: string" rule: replace.induct)
  case (1 old)
  then show ?case by simp
next
  case (2 c cs old)
  then show ?case
    by (auto simp: le_Suc_eq) 
qed

lemma replace_length_less:
  "old \<noteq> [] \<Longrightarrow> contains old s \<Longrightarrow> length (replace s old []) < length s"
proof (induction s old "[] :: string" rule: replace.induct)
  case (1 old)
  then show ?case by simp
next
  case (2 c cs old)
  show ?case
  proof (cases "prefix old (c # cs)")
    case True
    have "length (replace (drop (length old) (c # cs)) old []) \<le> length (drop (length old) (c # cs))"
      using 2(4) by (rule replace_length_le)
    moreover have "0 < length old"
      using 2(4) by simp
    then have "length (drop (length old) (c # cs)) < length (c # cs)"
      by simp
    ultimately have "length (replace (drop (length old) (c # cs)) old []) < length (c # cs)"
      by (rule le_less_trans)
    with True 2(4) show ?thesis by simp
  next
    case False
    with 2 show ?thesis by auto
  qed
qed

lemma replace_leading: "old \<noteq> [] \<Longrightarrow> replace (old @ s) old new = new @ replace s old new"
  by (cases old) auto

text \<open>
  C10. In \<open>download_all_files\<close> the local path of an entry is the module path of
  \<open>next/\<close> followed by the entry's path with every occurrence of \<open>main_dir + '/'\<close> taken
  out (\<open>str.replace\<close>, not the removal of a prefix). For a path \<open>main_dir + '/' + rel\<close>
  this is \<open>next/rel\<close> exactly when \<open>main_dir + '/'\<close> does not occur in \<open>rel\<close>; when it occurs
  there again, the occurrences are taken out as well and the file is written to another,
  shorter path.
\<close>

theorem C10_download_path:
  "download_path U (JStr (main_dir U @ ''/'' @ rel))
     = Inr (get_module_and_path U (''next/'' @ replace rel (main_dir U @ ''/'') []))
   \<and> (replace rel (main_dir U @ ''/'') [] = rel) = (\<not> contains (main_dir U @ ''/'') rel)"
proof -
  have ne: "main_dir U @ ''/'' \<noteq> []" by simp
  have "replace ((main_dir U @ ''/'') @ rel) (main_dir U @ ''/'') [] = replace rel (main_dir U @ ''/'') []"
    using replace_leading [OF ne, of rel "[]"] by simp
  then have a: "download_path U (JStr (main_dir U @ ''/'' @ rel))
     = Inr (get_module_and_path U (''next/'' @ replace rel (main_dir U @ ''/'') []))"
    by (simp add: download_path_def py_replace_def)
  have b: "(replace rel (main_dir U @ ''/'') [] = rel) = (\<not> contains (main_dir U @ ''/'') rel)"
    using replace_absent [OF ne, of rel "[]"] replace_length_less [OF ne, of rel]
    by (metis less_irrefl)
  from a b show ?thesis by blast
qed


theorem C10_download_path_witness:
  "download_path (OTAUpdater ''https://github.com/u/r'' [] ''main'') (JStr ''main/sub/main/x.py'')
     = Inr ''next/sub/x.py''
   \<and> contains ''main/'' ''sub/main/x.py''"
  using C10_download_path [of "OTAUpdater ''https://github.com/u/r'' [] ''main''" "''sub/main/x.py''"]
  by (simp add: OTAUpdater_def get_module_and_path_def rstrip_char_def)

section \<open>Statements in sequence\<close>

lemma bind_return [simp]: "bind_io (return_io x) f w = f x w"
  by (simp add: bind_io_def return_io_def)

lemma bind_raise [simp]: "bind_io (raise_io e) f w = (Inl e, w)"
  by (simp add: bind_io_def raise_io_def)

lemma bind_lift_Inr [simp]: "bind_io (lift_io (Inr x)) f w = f x w"
  by (simp add: bind_io_def lift_io_def)

lemma bind_lift_Inl [simp]: "bind_io (lift_io (Inl e)) f w = (Inl e, w)"
  by (simp add: bind_io_def lift_io_def)

lemma bind_assoc [simp]: "bind_io (bind_io m g) f = bind_io m (\<lambda>x. bind_io (g x) f)"
  by (rule ext) (simp add: bind_io_def split: prod.splits sum.splits)

lemma bind_Inr: "m w = (Inr x, w') \<Longrightarrow> bind_io m f w = f x w'"
  by (simp add: bind_io_def)

lemma bind_Inl: "m w = (Inl e, w') \<Longrightarrow> bind_io m f w = (Inl e, w')"
  by (simp add: bind_io_def)

section \<open>What a request puts on the wire\<close>

text \<open>
  \<open>sk_live\<close>: the socket exists and is open. \<open>sock_step s d m n\<close> is the device after
  socket \<open>s\<close> has sent \<open>d\<close>, has had \<open>m\<close> bytes read from it and has used \<open>n\<close> units of
  its budget.
\<close>

definition sk_live :: "nat \<Rightarrow> world \<Rightarrow> bool" where
  "sk_live s w = (s < length (socks w) \<and> closes (socks w ! s) = 0)"

definition sock_step :: "nat \<Rightarrow> string \<Rightarrow> nat \<Rightarrow> nat \<Rightarrow> world \<Rightarrow> world" where
  "sock_step s d m n w =
     w\<lparr>socks := (socks w)[s := (socks w ! s)\<lparr>sent := sent (socks w ! s) @ d,
          inbox := drop m (inbox (socks w ! s)), budget := budget (socks w ! s) - n\<rparr>]\<rparr>"

lemma sock_step_step [simp]:
  "sock_step s d2 m2 n2 (sock_step s d1 m1 n1 w) = sock_step s (d1 @ d2) (m1 + m2) (n1 + n2) w"
  by (cases "s < length (socks w)") (simp_all add: sock_step_def add.commute list_update_beyond)

lemma sock_step_fields [simp]:
  "length (socks (sock_step s d m n w)) = length (socks w)"
  "root (sock_step s d m n w) = root w"
  "hist (sock_step s d m n w) = hist w"
  "resps (sock_step s d m n w) = resps w"
  by (simp_all add: sock_step_def)

lemma sock_step_sock [simp]:
  "s < length (socks w) \<Longrightarrow> sent (socks (sock_step s d m n w) ! s) = sent (socks w ! s) @ d"
  "s < length (socks w) \<Longrightarrow> inbox (socks (sock_step s d m n w) ! s) = drop m (inbox (socks w ! s))"
  "s < length (socks w) \<Longrightarrow> budget (socks (sock_step s d m n w) ! s) = budget (socks w ! s) - n"
  "s < length (socks w) \<Longrightarrow> closes (socks (sock_step s d m n w) ! s) = closes (socks w ! s)"
  by (simp_all add: sock_step_def)

lemma sk_live_step [simp]: "sk_live s (sock_step s d m n w) = sk_live s w"
  by (auto simp: sk_live_def sock_step_def)

lemma sk_live_less: "sk_live s w \<Longrightarrow> s < length (socks w)"
  by (simp add: sk_live_def)

lemma sock_write_ok:
  "sk_live s w \<Longrightarrow> 0 < budget (socks w ! s) \<Longrightarrow>
   bind_io (sock_write s d) f w = f () (sock_step s d 0 1 w)"
  by (auto simp: sk_live_def sock_write_def sock_io_def sock_step_def bind_io_def)

lemma sock_connect_ok:
  "sk_live s w \<Longrightarrow> 0 < budget (socks w ! s) \<Longrightarrow>
   bind_io (sock_connect s) f w = f () (sock_step s [] 0 1 w)"
  by (auto simp: sk_live_def sock_connect_def sock_io_def sock_step_def bind_io_def)

lemma wrap_socket_ok:
  "sk_live s w \<Longrightarrow> 0 < budget (socks w ! s) \<Longrightarrow>
   bind_io (wrap_socket s) f w = f () (sock_step s [] 0 1 w)"
  by (auto simp: sk_live_def wrap_socket_def sock_io_def sock_step_def bind_io_def)

lemma sock_readline_ok:
  "sk_live s w \<Longrightarrow> 0 < budget (socks w ! s) \<Longrightarrow>
   bind_io (sock_readline s) f w =
     f (first_line (inbox (socks w ! s)))
       (sock_step s [] (length (first_line (inbox (socks w ! s)))) 1 w)"
  by (auto simp: sk_live_def sock_readline_def sock_io_def sock_step_def bind_io_def)

definition header_line :: "string \<times> string \<Rightarrow> string" where
  "header_line h = fst h @ '': '' @ snd h @ crlf"

lemma write_headers_ok:
  "sk_live s w \<Longrightarrow> 4 * length hs \<le> budget (socks w ! s) \<Longrightarrow>
   bind_io (write_headers s hs) f w
     = f () (sock_step s (concat (map header_line hs)) 0 (4 * length hs) w)"
proof (induction hs arbitrary: w f)
  case Nil
  have "sock_step s [] 0 0 w = w"
    by (cases "s < length (socks w)") (simp_all add: sock_step_def)
  then show ?case
    by simp
next
  case (Cons h hs)
  obtain k v where h: "h = (k, v)" by (cases h)
  note lt = sk_live_less [OF Cons.prems(1)]
  show ?case
    using Cons.prems lt
    by (simp add: h sock_write_ok Cons.IH header_line_def) (simp add: eval_nat_numeral)
qed

text \<open>
  The bytes of a request. \<open>wire_emitted\<close> is the order of the writes in lines 254 to 277;
  \<open>wire_as_claimed\<close> is the order the specification gives, with the user agent before the
  caller's headers. \<open>n_writes\<close> counts the calls of \<open>write\<close>.
\<close>

definition body_of :: "env \<Rightarrow> string option \<Rightarrow> json option \<Rightarrow> string" where
  "body_of E data js =
     (case js of Some j \<Rightarrow> dumps E j | None \<Rightarrow> (case data of Some d \<Rightarrow> d | None \<Rightarrow> []))"

definition trailer :: "env \<Rightarrow> string option \<Rightarrow> json option \<Rightarrow> string" where
  "trailer E data js =
     (if js = None then [] else ''Content-Type: application/json'' @ crlf)
     @ (if body_of E data js = [] then []
        else ''Content-Length: '' @ str_of_nat (length (body_of E data js)) @ crlf)
     @ crlf @ body_of E data js"

definition wire_emitted ::
  "env \<Rightarrow> string \<Rightarrow> string \<Rightarrow> string \<Rightarrow> string option \<Rightarrow> json option
     \<Rightarrow> (string \<times> string) list \<Rightarrow> string" where
  "wire_emitted E method host path data js headers =
     method @ '' /'' @ path @ '' HTTP/1.0'' @ crlf
     @ (if ''Host'' \<in> fst ` set headers then [] else ''Host: '' @ host @ crlf)
     @ concat (map header_line headers)
     @ ''User-Agent: MicroPython OTAUpdater'' @ crlf
     @ trailer E data js"

definition wire_as_claimed ::
  "env \<Rightarrow> string \<Rightarrow> string \<Rightarrow> string \<Rightarrow> string option \<Rightarrow> json option
     \<Rightarrow> (string \<times> string) list \<Rightarrow> string" where
  "wire_as_claimed E method host path data js headers =
     method @ '' /'' @ path @ '' HTTP/1.0'' @ crlf
     @ (if ''Host'' \<in> fst ` set headers then [] else ''Host: '' @ host @ crlf)
     @ ''User-Agent: MicroPython OTAUpdater'' @ crlf
     @ concat (map header_line headers)
     @ trailer E data js"

definition n_writes :: "env \<Rightarrow> string option \<Rightarrow> json option \<Rightarrow> (string \<times> string) list \<Rightarrow> nat" where
  "n_writes E data js headers =
     6 + 4 * length headers + (if ''Host'' \<in> fst ` set headers then 0 else 1)
       + (if js = None then 0 else 1) + (if body_of E data js = [] then 0 else 2)"

lemma n_writes_le: "n_writes E data js headers \<le> 4 * length headers + 10"
  by (simp add: n_writes_def)

lemma sock_step_eq: "d = d' \<Longrightarrow> n = n' \<Longrightarrow> sock_step s d m n w = sock_step s d' m n' w"
  by simp

lemma send_request_ok:
  assumes "sk_live s w" and "4 * length headers + 10 \<le> budget (socks w ! s)"
    and "js = None \<or> data = None"
  shows "bind_io (send_request E s method host path data js headers) f w
           = f () (sock_step s (wire_emitted E method host path data js headers) 0
                     (n_writes E data js headers) w)"
proof -
  note lt = sk_live_less [OF assms(1)]
  show ?thesis
  proof (cases js)
    case None
    show ?thesis
    proof (cases data)
      case N: None
      show ?thesis
        using assms(1,2) lt None N
        by (auto simp: send_request_def sock_write_ok write_headers_ok wire_emitted_def
            trailer_def body_of_def n_writes_def intro!: arg_cong [where f = "f ()"] sock_step_eq)
    next
      case (Some d)
      show ?thesis
        using assms(1,2) lt None Some
        by (cases d)
           (auto simp: send_request_def sock_write_ok write_headers_ok wire_emitted_def
            trailer_def body_of_def n_writes_def intro!: arg_cong [where f = "f ()"] sock_step_eq)
    qed
  next
    case (Some j)
    with assms(3) have N: "data = None" by simp
    show ?thesis
      using assms(1,2) lt Some N
      by (cases "dumps E j")
         (auto simp: send_request_def sock_write_ok write_headers_ok wire_emitted_def
          trailer_def body_of_def n_writes_def intro!: arg_cong [where f = "f ()"] sock_step_eq)
  qed
qed

definition keeps_sent :: "'a io \<Rightarrow> bool" where
  "keeps_sent m = (\<forall>w. map sent (socks (snd (m w))) = map sent (socks w))"

lemma keeps_sentD: "keeps_sent m \<Longrightarrow> map sent (socks (snd (m w))) = map sent (socks w)"
  by (simp add: keeps_sent_def)

lemma keeps_sent_return [simp]: "keeps_sent (return_io x)"
  by (simp add: keeps_sent_def return_io_def)

lemma keeps_sent_raise [simp]: "keeps_sent (raise_io e)"
  by (simp add: keeps_sent_def raise_io_def)

lemma keeps_sent_lift [simp]: "keeps_sent (lift_io r)"
  by (simp add: keeps_sent_def lift_io_def)

lemma snd_bind_sent:
  assumes "\<And>x. keeps_sent (f x)"
  shows "map sent (socks (snd (bind_io m f w))) = map sent (socks (snd (m w)))"
proof (cases "m w")
  case (Pair r w')
  then show ?thesis
    using assms by (cases r) (simp_all add: bind_io_def keeps_sentD)
qed

lemma keeps_sent_bind: "keeps_sent m \<Longrightarrow> (\<And>x. keeps_sent (f x)) \<Longrightarrow> keeps_sent (bind_io m f)"
  unfolding keeps_sent_def [of "bind_io m f"]
  by (simp add: snd_bind_sent keeps_sentD)

lemma map_sent_update:
  "sent k = sent (xs ! s) \<Longrightarrow> map sent (xs[s := k]) = map sent xs"
  by (cases "s < length xs") (simp_all add: map_update list_update_beyond list_update_same_conv)

lemma keeps_sent_sock_io:
  assumes "\<And>k. sent (snd (f k)) = sent k"
  shows "keeps_sent (sock_io s f)"
  unfolding keeps_sent_def
proof
  fix w
  show "map sent (socks (snd (sock_io s f w))) = map sent (socks w)"
    using assms [of "socks w ! s"]
    by (cases "f (socks w ! s)") (simp add: sock_io_def map_sent_update)
qed

lemma keeps_sent_readline [simp]: "keeps_sent (sock_readline s)"
  unfolding sock_readline_def by (rule keeps_sent_sock_io) simp

lemma keeps_sent_close [simp]: "keeps_sent (sock_close s)"
  by (simp add: keeps_sent_def sock_close_def map_sent_update)

lemma keeps_sent_Response [simp]: "keeps_sent (Response s)"
  by (simp add: keeps_sent_def Response_def)

lemma keeps_sent_set_status [simp]: "keeps_sent (set_status r a b)"
  by (simp add: keeps_sent_def set_status_def)

lemma keeps_sent_read_status [simp]: "keeps_sent (read_status s)"
  unfolding read_status_def
  by (rule keeps_sent_bind) (simp_all split: list.splits sum.splits)

lemma read_headers_sent:
  "map sent (socks (snd (read_headers s status w))) = map sent (socks w)"
proof (induction s status w rule: read_headers.induct)
  case (1 s status w)
  have rl: "map sent (socks (snd (sock_readline s w))) = map sent (socks w)"
    by (rule keeps_sentD) simp
  show ?case
  proof (cases "sock_readline s w")
    case (Pair r w')
    with rl have w': "map sent (socks w') = map sent (socks w)" by simp
    show ?thesis
    proof (cases r)
      case (Inl e)
      with Pair w' show ?thesis
        by (simp add: read_headers.simps [of s status w])
    next
      case (Inr l)
      with Pair w' 1 [OF Pair [symmetric] Inr] show ?thesis
        by (simp add: read_headers.simps [of s status w])
    qed
  qed
qed

lemma keeps_sent_read_headers [simp]: "keeps_sent (read_headers s status)"
  by (simp add: keeps_sent_def read_headers_sent)

lemma snd_except_sent:
  assumes "keeps_sent h"
  shows "map sent (socks (snd (except_OSError m h w))) = map sent (socks (snd (m w)))"
proof (cases "m w")
  case (Pair r w')
  show ?thesis
  proof (cases "r = Inl OSError")
    case True
    with Pair keeps_sentD [OF assms, of w'] show ?thesis
      by (cases "h w'") (auto simp: except_OSError_def split: sum.splits)
  next
    case False
    with Pair show ?thesis
      by (auto simp: except_OSError_def split: sum.splits error.splits)
  qed
qed

lemma request_try_sent:
  assumes "sk_live s w" and "4 * length headers + 12 \<le> budget (socks w ! s)"
    and "js = None \<or> data = None"
  shows "map sent (socks (snd (request_try E s proto method host path data js headers w)))
         = (map sent (socks w))[s := sent (socks w ! s)
               @ wire_emitted E method host path data js headers]"
proof -
  note lt = sk_live_less [OF assms(1)]
  let ?tail = "\<lambda>u. bind_io (read_status s) (\<lambda>(status, rsn).
     bind_io (read_headers s status) (\<lambda>_. return_io (status, rsn)))"
  have k: "keeps_sent (?tail u)" for u
    by (rule keeps_sent_bind) (auto intro!: keeps_sent_bind)
  have "\<exists>n. request_try E s proto method host path data js headers w
          = ?tail () (sock_step s (wire_emitted E method host path data js headers) 0 n w)"
    using assms lt
    by (cases "proto = ''https:''")
       (auto simp: request_try_def sock_connect_ok wrap_socket_ok send_request_ok)
  then obtain n where "request_try E s proto method host path data js headers w
          = ?tail () (sock_step s (wire_emitted E method host path data js headers) 0 n w)" ..
  then have "map sent (socks (snd (request_try E s proto method host path data js headers w)))
      = map sent (socks (sock_step s (wire_emitted E method host path data js headers) 0 n w))"
    using keeps_sentD [OF k] by simp
  also have "\<dots> = (map sent (socks w))[s := sent (socks w ! s)
               @ wire_emitted E method host path data js headers]"
    by (simp add: sock_step_def map_update)
  finally show ?thesis .
qed

text \<open>
  C9, as amended. When the URL is well formed, the host resolves and the socket does not
  fail while the request is written, \<open>HttpClient.request\<close> has written to the socket, in
  this order: the request line, a \<open>Host\<close> header when the caller gave none, the caller's
  headers, the user agent, \<open>Content-Type\<close> for a JSON body, \<open>Content-Length\<close> for a body
  that is not empty, the empty line, and the body. This holds however the reading of the
  response ends.
\<close>

theorem C9_wire_order:
  assumes "parse_url url = Inr (proto, host0, path)"
    and "host_port proto host0 = Inr (host, port)"
    and "network E (length (socks w)) host port = Some (reply, n)"
    and "4 * length headers + 12 \<le> n"
    and "js = None \<or> data = None"
  shows "sent (socks (snd (request E method url data js headers w)) ! length (socks w))
         = wire_emitted E method host path data js headers"
proof -
  let ?s = "length (socks w)"
  let ?w1 = "w\<lparr>socks := socks w @ [\<lparr>sent = [], inbox = reply, budget = n, closes = 0\<rparr>]\<rparr>"
  let ?rest = "\<lambda>(status, rsn). bind_io (Response ?s) (\<lambda>resp.
     bind_io (set_status resp status rsn) (\<lambda>_. return_io resp))"
  have live: "sk_live ?s ?w1"
    by (simp add: sk_live_def)
  have bud: "4 * length headers + 12 \<le> budget (socks ?w1 ! ?s)"
    using assms(4) by simp
  have k: "keeps_sent (?rest x)" for x
    by (cases x) (auto intro!: keeps_sent_bind)
  have "request E method url data js headers w
        = bind_io (except_OSError (request_try E ?s proto method host path data js headers)
                     (sock_close ?s)) ?rest ?w1"
    using assms(1,2,3) by (simp add: request_def usocket_socket_def bind_io_def [of "usocket_socket _ _ _"])
  then have "map sent (socks (snd (request E method url data js headers w)))
        = map sent (socks (snd (request_try E ?s proto method host path data js headers ?w1)))"
    using snd_bind_sent [of ?rest, OF k] snd_except_sent [of "sock_close ?s"] by simp
  also have "\<dots> = (map sent (socks ?w1))[?s := sent (socks ?w1 ! ?s)
               @ wire_emitted E method host path data js headers]"
    using live bud assms(5) by (rule request_try_sent)
  finally have m: "map sent (socks (snd (request E method url data js headers w)))
      = map sent (socks w) @ [wire_emitted E method host path data js headers]"
    by (simp add: list_update_append)
  have "length (map sent (socks (snd (request E method url data js headers w)))) = Suc ?s"
    unfolding m by simp
  then have "sent (socks (snd (request E method url data js headers w)) ! ?s)
      = map sent (socks (snd (request E method url data js headers w))) ! ?s"
    by simp
  also have "\<dots> = wire_emitted E method host path data js headers"
    unfolding m by (simp add: nth_append)
  finally show ?thesis .
qed

text \<open>A network that answers every connection with \<open>reply\<close>, and an empty device.\<close>

definition E_demo :: "string \<Rightarrow> env" where
  "E_demo reply = \<lparr>network = (\<lambda>n host port. Some (reply, 100)), loads = (\<lambda>b. None),
     dumps = (\<lambda>j. []), recursion_limit = 10\<rparr>"

definition w_empty :: world where
  "w_empty = \<lparr>root = Dir [], hist = [], socks = [], resps = []\<rparr>"


lemma parse_demo: "parse_url ''http://h/p'' = Inr (''http:'', ''h'', ''p'')"
  by code_simp

lemma host_demo: "host_port ''http:'' ''h'' = Inr (''h'', 80)"
  by code_simp

theorem C9_wire_order_witness:
  "sent (socks (snd (request (E_demo []) ''GET'' ''http://h/p'' None None [(''X'', ''1'')] w_empty)) ! 0)
     = ''GET /p HTTP/1.0'' @ crlf @ ''Host: h'' @ crlf @ ''X: 1'' @ crlf
       @ ''User-Agent: MicroPython OTAUpdater'' @ crlf @ crlf"
  using C9_wire_order [of "''http://h/p''" "''http:''" "''h''" "''p''" "''h''" 80 "E_demo []" w_empty
      "[]" 100 "[(''X'', ''1'')]" None None "''GET''"]
  by (simp add: parse_demo host_demo E_demo_def w_empty_def wire_emitted_def trailer_def
      body_of_def header_line_def)

text \<open>
  C9 as stated (user agent before the caller's headers) fails for a request with one
  header of the caller.
\<close>

theorem C9_claimed_order_counterexample:
  "sent (socks (snd (request (E_demo []) ''GET'' ''http://h/p'' None None [(''X'', ''1'')] w_empty)) ! 0)
     \<noteq> wire_as_claimed (E_demo []) ''GET'' ''h'' ''p'' None None [(''X'', ''1'')]"
  by code_simp

section \<open>Reading the status line and the headers\<close>

text \<open>
  \<open>is_line\<close>: a line as \<open>readline\<close> returns it before the end of the stream, ended by its
  only line feed. \<open>rejected status l\<close>: the header line \<open>l\<close> makes lines 291 to 295 raise.
  \<open>passes status l\<close>: \<open>l\<close> is not the empty line and the loop goes on after it.
\<close>

definition is_line :: "string \<Rightarrow> bool" where
  "is_line l = (l \<noteq> [] \<and> last l = CHR 0x0A \<and> CHR 0x0A \<notin> set (butlast l))"

definition rejected :: "int \<Rightarrow> string \<Rightarrow> bool" where
  "rejected status l =
     (if startswith l ''Transfer-Encoding:'' then contains ''chunked'' l
      else startswith l ''Location:'' \<and> \<not> (200 \<le> status \<and> status \<le> 299))"

definition passes :: "int \<Rightarrow> string \<Rightarrow> bool" where
  "passes status l = (l \<noteq> crlf \<and> \<not> rejected status l)"

lemma first_line_append: "is_line l \<Longrightarrow> first_line (l @ rest) = l"
proof -
  assume l: "is_line l"
  then have e: "l = butlast l @ [CHR 0x0A]"
    unfolding is_line_def by (metis append_butlast_last_id)
  have n: "\<forall>x\<in>set (butlast l). x \<noteq> CHR 0x0A"
    using l unfolding is_line_def by auto
  have "first_line ((butlast l @ [CHR 0x0A]) @ rest) = butlast l @ [CHR 0x0A]"
    using n by (simp add: first_line_def takeWhile_append2 dropWhile_append2)
  with e show ?thesis by simp
qed

lemma read_status_ok:
  assumes "sk_live s w" and "0 < budget (socks w ! s)"
    and "inbox (socks w ! s) = sl @ rest" and "is_line sl"
    and "split_none 2 sl = a # b # r" and "py_int b = Inr status"
  shows "bind_io (read_status s) f w
         = f (status, case r of [] \<Rightarrow> [] | c # cs \<Rightarrow> rstrip c) (sock_step s [] (length sl) 1 w)"
  using assms
  by (simp add: read_status_def sock_readline_ok first_line_append)

lemma read_headers_pass:
  assumes "sk_live s w" and "0 < budget (socks w ! s)"
    and "inbox (socks w ! s) = l @ rest" and "is_line l" and "passes status l"
  shows "read_headers s status w = read_headers s status (sock_step s [] (length l) 1 w)"
proof -
  have rl: "sock_readline s w = (Inr l, sock_step s [] (length l) 1 w)"
    using sock_readline_ok [OF assms(1,2), of return_io] assms(3,4)
    by (simp add: first_line_append bind_io_def return_io_def split: prod.splits sum.splits)
  have "l \<noteq> []" using assms(4) by (simp add: is_line_def)
  then show ?thesis
    using assms(5)
    by (subst read_headers.simps) (auto simp: rl passes_def rejected_def)
qed

lemma read_headers_passes:
  assumes "sk_live s w" and "length before \<le> budget (socks w ! s)"
    and "inbox (socks w ! s) = concat before @ rest"
    and "\<forall>l\<in>set before. is_line l \<and> passes status l"
  shows "read_headers s status w
         = read_headers s status (sock_step s [] (length (concat before)) (length before) w)"
  using assms
proof (induction before arbitrary: w)
  case Nil
  have "sock_step s [] 0 0 w = w"
    by (cases "s < length (socks w)") (simp_all add: sock_step_def)
  then show ?case by simp
next
  case (Cons l before)
  note lt = sk_live_less [OF Cons.prems(1)]
  have 1: "read_headers s status w = read_headers s status (sock_step s [] (length l) 1 w)"
    using Cons.prems by (intro read_headers_pass [where rest = "concat before @ rest"]) auto
  have 2: "read_headers s status (sock_step s [] (length l) 1 w)
      = read_headers s status
          (sock_step s [] (length (concat before)) (length before) (sock_step s [] (length l) 1 w))"
    using Cons.prems lt by (intro Cons.IH) auto
  show ?case
    unfolding 1 2 by simp
qed

lemma read_headers_reject:
  assumes "sk_live s w" and "0 < budget (socks w ! s)"
    and "inbox (socks w ! s) = l @ rest" and "is_line l" and "rejected status l"
  shows "read_headers s status w
         = (Inl (if startswith l ''Transfer-Encoding:'' then TypeError else NotImplementedError),
            sock_step s [] (length l) 1 w)"
proof -
  have rl: "sock_readline s w = (Inr l, sock_step s [] (length l) 1 w)"
    using sock_readline_ok [OF assms(1,2), of return_io] assms(3,4)
    by (simp add: first_line_append bind_io_def return_io_def split: prod.splits sum.splits)
  have ne: "l \<noteq> []" using assms(4) by (simp add: is_line_def)
  have nc: "l \<noteq> crlf"
    using assms(5) by (auto simp: rejected_def startswith_def crlf_def split: if_splits)
  show ?thesis
    using assms(5) ne nc
    by (subst read_headers.simps) (auto simp: rl rejected_def)
qed

lemma request_try_reject:
  assumes live: "sk_live s w"
    and bud: "4 * length headers + length before + 14 \<le> budget (socks w ! s)"
    and nb: "js = None \<or> data = None"
    and inb: "inbox (socks w ! s) = sl @ concat before @ bad @ rest"
    and sl: "is_line sl" "split_none 2 sl = a # b # r" "py_int b = Inr status"
    and before: "\<forall>l\<in>set before. is_line l \<and> passes status l"
    and bad: "is_line bad" "rejected status bad"
  shows "\<exists>n. request_try E s proto method host path data js headers w
          = (Inl (if startswith bad ''Transfer-Encoding:'' then TypeError else NotImplementedError),
             sock_step s (wire_emitted E method host path data js headers)
               (length sl + length (concat before) + length bad) n w)"
proof -
  note lt = sk_live_less [OF live]
  let ?tail = "bind_io (read_status s) (\<lambda>(status, rsn).
     bind_io (read_headers s status) (\<lambda>_. return_io (status, rsn)))"
  let ?wire = "wire_emitted E method host path data js headers"
  let ?err = "if startswith bad ''Transfer-Encoding:'' then TypeError else NotImplementedError"
  have nw: "n_writes E data js headers \<le> 4 * length headers + 10"
    by (rule n_writes_le)
  have "\<exists>n\<le>4 * length headers + 12. request_try E s proto method host path data js headers w
          = ?tail (sock_step s ?wire 0 n w)"
  proof (cases "proto = ''https:''")
    case True
    have "request_try E s proto method host path data js headers w
          = ?tail (sock_step s ?wire 0 (2 + n_writes E data js headers) w)"
      using live bud lt nb True
      by (simp add: request_try_def sock_connect_ok wrap_socket_ok send_request_ok)
    with nw show ?thesis
      by (intro exI [of _ "2 + n_writes E data js headers"]) simp
  next
    case False
    have "request_try E s proto method host path data js headers w
          = ?tail (sock_step s ?wire 0 (1 + n_writes E data js headers) w)"
      using live bud lt nb False
      by (simp add: request_try_def sock_connect_ok send_request_ok)
    with nw show ?thesis
      by (intro exI [of _ "1 + n_writes E data js headers"]) simp
  qed
  then obtain n where n: "n \<le> 4 * length headers + 12"
    and 1: "request_try E s proto method host path data js headers w = ?tail (sock_step s ?wire 0 n w)"
    by blast
  let ?w2 = "sock_step s ?wire 0 n w"
  let ?w3 = "sock_step s [] (length sl) 1 ?w2"
  let ?w4 = "sock_step s [] (length (concat before)) (length before) ?w3"
  have l2: "sk_live s ?w2" using live by simp
  have b2: "0 < budget (socks ?w2 ! s)" using bud n lt by simp
  have i2: "inbox (socks ?w2 ! s) = sl @ (concat before @ bad @ rest)" using inb lt by simp
  have 2: "?tail ?w2 = bind_io (read_headers s status)
             (\<lambda>_. return_io (status, case r of [] \<Rightarrow> [] | c # cs \<Rightarrow> rstrip c)) ?w3"
    by (subst read_status_ok [OF l2 b2 i2 sl]) simp
  have l3: "sk_live s ?w3" using live by simp
  have b3: "length before \<le> budget (socks ?w3 ! s)" using bud n lt by simp
  have i3: "inbox (socks ?w3 ! s) = concat before @ (bad @ rest)" using inb lt by simp
  have 3: "read_headers s status ?w3 = read_headers s status ?w4"
    using l3 b3 i3 before by (rule read_headers_passes)
  have l4: "sk_live s ?w4" using live by simp
  have b4: "0 < budget (socks ?w4 ! s)" using bud n lt by simp
  have i4: "inbox (socks ?w4 ! s) = bad @ rest" using inb lt by simp
  have 4: "read_headers s status ?w4 = (Inl ?err, sock_step s [] (length bad) 1 ?w4)"
    using l4 b4 i4 bad by (rule read_headers_reject)
  have "request_try E s proto method host path data js headers w
        = (Inl ?err, sock_step s [] (length bad) 1 ?w4)"
    unfolding 1 2 by (rule bind_Inl) (simp only: 3 4)
  then show ?thesis
    by (simp add: add.assoc) blast
qed

text \<open>
  C5, as amended. Take a response whose status line is well formed, followed by header
  lines that the loop passes and then by a header line \<open>bad\<close> that either starts with
  \<open>Transfer-Encoding:\<close> and contains \<open>chunked\<close>, or starts with \<open>Location:\<close> while the status is
  outside 200 to 299. If the socket does not fail, \<open>HttpClient.request\<close> raises: in the
  second case the redirect error \<open>NotImplementedError\<close>. It raises while it reads the
  headers: what follows \<open>bad\<close> in the stream is left unread and no \<open>Response\<close> has been
  made. The status alone decides nothing: see the counterexample below.
\<close>

theorem C5_rejections:
  assumes "parse_url url = Inr (proto, host0, path)"
    and "host_port proto host0 = Inr (host, port)"
    and "network E (length (socks w)) host port = Some (sl @ concat before @ bad @ rest, n)"
    and "4 * length headers + length before + 14 \<le> n"
    and "js = None \<or> data = None"
    and "is_line sl" and "split_none 2 sl = a # b # r" and "py_int b = Inr status"
    and "\<forall>l\<in>set before. is_line l \<and> passes status l"
    and "is_line bad" and "rejected status bad"
  shows "(\<exists>e. fst (request E method url data js headers w) = Inl e)
       \<and> (\<not> startswith bad ''Transfer-Encoding:''
            \<longrightarrow> fst (request E method url data js headers w) = Inl NotImplementedError)
       \<and> inbox (socks (snd (request E method url data js headers w)) ! length (socks w)) = rest
       \<and> resps (snd (request E method url data js headers w)) = resps w"
proof -
  let ?s = "length (socks w)"
  let ?reply = "sl @ concat before @ bad @ rest"
  let ?w1 = "w\<lparr>socks := socks w @ [\<lparr>sent = [], inbox = ?reply, budget = n, closes = 0\<rparr>]\<rparr>"
  let ?rest = "\<lambda>(status, rsn). bind_io (Response ?s) (\<lambda>resp.
     bind_io (set_status resp status rsn) (\<lambda>_. return_io resp))"
  let ?err = "if startswith bad ''Transfer-Encoding:'' then TypeError else NotImplementedError"
  have live: "sk_live ?s ?w1"
    by (simp add: sk_live_def)
  have bud: "4 * length headers + length before + 14 \<le> budget (socks ?w1 ! ?s)"
    using assms(4) by simp
  have inb: "inbox (socks ?w1 ! ?s) = ?reply"
    by simp
  obtain k where k: "request_try E ?s proto method host path data js headers ?w1
      = (Inl ?err, sock_step ?s (wire_emitted E method host path data js headers)
               (length sl + length (concat before) + length bad) k ?w1)"
    using request_try_reject [OF live bud assms(5) inb assms(6,7,8,9,10,11)] by blast
  have ne: "?err \<noteq> OSError" by simp
  have "request E method url data js headers w
        = bind_io (except_OSError (request_try E ?s proto method host path data js headers)
                     (sock_close ?s)) ?rest ?w1"
    using assms(1,2,3) by (simp add: request_def usocket_socket_def bind_io_def [of "usocket_socket _ _ _"])
  also have "\<dots> = (Inl ?err, sock_step ?s (wire_emitted E method host path data js headers)
               (length sl + length (concat before) + length bad) k ?w1)"
    using ne by (intro bind_Inl) (auto simp: except_OSError_def k split: error.splits)
  finally have r: "request E method url data js headers w
      = (Inl ?err, sock_step ?s (wire_emitted E method host path data js headers)
               (length sl + length (concat before) + length bad) k ?w1)" .
  show ?thesis
    unfolding r by (simp add: sock_step_def)
qed

definition chunked_reply :: string where
  "chunked_reply = (''HTTP/1.0 200 OK'' @ crlf) @ concat [''Server: x'' @ crlf]
     @ (''Transfer-Encoding: chunked'' @ crlf) @ (crlf @ ''BODY'')"

definition redirect_reply :: string where
  "redirect_reply = (''HTTP/1.0 302 Found'' @ crlf) @ concat [''Server: x'' @ crlf]
     @ (''Location: http://h/q'' @ crlf) @ (crlf @ ''BODY'')"


theorem C5_rejections_witness:
  "(\<exists>e. fst (request (E_demo chunked_reply) ''GET'' ''http://h/p'' None None [] w_empty) = Inl e)
   \<and> inbox (socks (snd (request (E_demo chunked_reply) ''GET'' ''http://h/p'' None None [] w_empty)) ! 0)
       = crlf @ ''BODY''
   \<and> fst (request (E_demo redirect_reply) ''GET'' ''http://h/p'' None None [] w_empty)
       = Inl NotImplementedError
   \<and> resps (snd (request (E_demo redirect_reply) ''GET'' ''http://h/p'' None None [] w_empty)) = []"
proof -
  have n1: "network (E_demo chunked_reply) (length (socks w_empty)) ''h'' 80
      = Some ((''HTTP/1.0 200 OK'' @ crlf) @ concat [''Server: x'' @ crlf]
          @ (''Transfer-Encoding: chunked'' @ crlf) @ (crlf @ ''BODY''), 100)"
    by (simp add: E_demo_def chunked_reply_def)
  have n2: "network (E_demo redirect_reply) (length (socks w_empty)) ''h'' 80
      = Some ((''HTTP/1.0 302 Found'' @ crlf) @ concat [''Server: x'' @ crlf]
          @ (''Location: http://h/q'' @ crlf) @ (crlf @ ''BODY''), 100)"
    by (simp add: E_demo_def redirect_reply_def)
  have b: "4 * length ([] :: (string \<times> string) list) + length [''Server: x'' @ crlf] + 14 \<le> (100 :: nat)"
    by simp
  have j: "(None :: json option) = None \<or> (None :: string option) = None"
    by simp
  have s1: "is_line (''HTTP/1.0 200 OK'' @ crlf)"
    "split_none 2 (''HTTP/1.0 200 OK'' @ crlf) = ''HTTP/1.0'' # ''200'' # [''OK'' @ crlf]"
    "py_int ''200'' = Inr 200"
    by code_simp+
  have s2: "is_line (''HTTP/1.0 302 Found'' @ crlf)"
    "split_none 2 (''HTTP/1.0 302 Found'' @ crlf) = ''HTTP/1.0'' # ''302'' # [''Found'' @ crlf]"
    "py_int ''302'' = Inr 302"
    by code_simp+
  have p1: "\<forall>l\<in>set [''Server: x'' @ crlf]. is_line l \<and> passes 200 l"
    by code_simp
  have p2: "\<forall>l\<in>set [''Server: x'' @ crlf]. is_line l \<and> passes 302 l"
    by code_simp
  have r1: "is_line (''Transfer-Encoding: chunked'' @ crlf)"
    "rejected 200 (''Transfer-Encoding: chunked'' @ crlf)"
    by code_simp+
  have r2: "is_line (''Location: http://h/q'' @ crlf)"
    "rejected 302 (''Location: http://h/q'' @ crlf)"
    "\<not> startswith (''Location: http://h/q'' @ crlf) ''Transfer-Encoding:''"
    by code_simp+
  from C5_rejections [OF parse_demo host_demo n1 b j s1 p1 r1, of "''GET''"]
    C5_rejections [OF parse_demo host_demo n2 b j s2 p2 r2(1,2), of "''GET''"] r2(3)
  show ?thesis
    by (simp add: w_empty_def)
qed

text \<open>
  C5 as stated fails: a response with status 304 and no \<open>Location\<close> header is not
  rejected; \<open>request\<close> returns a \<open>Response\<close> with that status.
\<close>

theorem C5_status_304_counterexample:
  "fst (request (E_demo (''HTTP/1.0 304 Not Modified'' @ crlf @ crlf)) ''GET'' ''http://h/p''
          None None [] w_empty) = Inr 0
   \<and> status_code (resps (snd (request (E_demo (''HTTP/1.0 304 Not Modified'' @ crlf @ crlf))
          ''GET'' ''http://h/p'' None None [] w_empty)) ! 0) = 304"
  by code_simp

section \<open>The socket after a rejected response\<close>

text \<open>
  C6 fails on the code. Only \<open>OSError\<close> is caught in lines 296 to 298, so when the
  redirect or the chunked encoding is rejected the error leaves \<open>request\<close> with the socket
  never closed, and there is no \<open>Response\<close> that could close it later.
\<close>

theorem C6_socket_left_open:
  "fst (request (E_demo redirect_reply) ''GET'' ''http://h/p'' None None [] w_empty)
     = Inl NotImplementedError
   \<and> closes (socks (snd (request (E_demo redirect_reply) ''GET'' ''http://h/p'' None None []
        w_empty)) ! 0) = 0
   \<and> resps (snd (request (E_demo redirect_reply) ''GET'' ''http://h/p'' None None [] w_empty)) = []
   \<and> isl (fst (request (E_demo chunked_reply) ''GET'' ''http://h/p'' None None [] w_empty))
   \<and> closes (socks (snd (request (E_demo chunked_reply) ''GET'' ''http://h/p'' None None []
        w_empty)) ! 0) = 0
   \<and> resps (snd (request (E_demo chunked_reply) ''GET'' ''http://h/p'' None None [] w_empty)) = []"
  by code_simp

section \<open>Well-formed file systems\<close>

text \<open>
  In a well-formed tree the names within a directory are distinct, not empty and free
  of slashes. \<open>height\<close> is the number of nested directory levels.
\<close>

fun wf_node :: "node \<Rightarrow> bool" where
  "wf_node (File c) = True"
| "wf_node (Dir es) = (distinct (map fst es) \<and> (\<forall>e\<in>set es. valid_name (fst e) \<and> wf_node (snd e)))"

fun height :: "node \<Rightarrow> nat" where
  "height (File c) = 0"
| "height (Dir es) = Suc (fold max (map (\<lambda>e. height (snd e)) es) 0)"

lemma fold_max_ge: "x \<in> set xs \<Longrightarrow> x \<le> fold max xs (a :: nat)"
proof (induction xs arbitrary: a)
  case Nil
  then show ?case by simp
next
  case (Cons y ys)
  have mono: "a \<le> fold max ys a" for a :: nat
    by (induction ys arbitrary: a) (auto intro: order_trans [OF max.cobounded2])
  from Cons show ?case
    by (auto intro: order_trans [OF max.cobounded1 mono])
qed

lemma height_child: "e \<in> set es \<Longrightarrow> height (Dir es) \<le> Suc n \<Longrightarrow> height (snd e) \<le> n"
  using fold_max_ge [of "height (snd e)" "map (\<lambda>e. height (snd e)) es" 0] by auto

subsection \<open>Paths\<close>

lemma split_all_nonempty [simp]: "split_all c s \<noteq> []"
  by (induction s) (auto split: list.splits)

lemma split_all_append: "split_all c (a @ c # b) = split_all c a @ split_all c b"
  by (induction a) (auto split: list.splits)

lemma split_all_plain: "c \<notin> set n \<Longrightarrow> split_all c n = [n]"
  by (induction n) auto

lemma components_join: "components (d @ ''/'' @ p) = components d @ components p"
  using split_all_append [of "CHR ''/''" d p] by (simp add: components_def)

lemma components_name: "valid_name n \<Longrightarrow> components n = [n]"
  by (simp add: components_def valid_name_def split_all_plain)

lemma components_child: "valid_name n \<Longrightarrow> components (d @ ''/'' @ n) = components d @ [n]"
  using components_join [of d n] by (simp add: components_name)

lemma resolve_append:
  "resolve (ps @ qs) t = (case resolve ps t of None \<Rightarrow> None | Some t' \<Rightarrow> resolve qs t')"
  by (induction ps arbitrary: t) (auto split: node.splits option.splits)

subsection \<open>Changing the tree at a path\<close>

fun modify :: "string list \<Rightarrow> (node \<Rightarrow> node) \<Rightarrow> node \<Rightarrow> node" where
  "modify [] f t = f t"
| "modify (n # ns) f (Dir es) = Dir (map (\<lambda>e. if fst e = n then (n, modify ns f (snd e)) else e) es)"
| "modify (n # ns) f (File c) = File c"

definition rm :: "string \<Rightarrow> node \<Rightarrow> node" where
  "rm k t = (case t of Dir es \<Rightarrow> Dir (filter (\<lambda>e. fst e \<noteq> k) es) | File c \<Rightarrow> File c)"

lemma prune_snoc: "prune (ps @ [k]) t = modify ps (rm k) t"
proof (induction ps arbitrary: t)
  case Nil
  show ?case by (cases t) (simp_all add: rm_def)
next
  case (Cons n ns)
  show ?case
  proof (cases t)
    case (File c)
    then show ?thesis by simp
  next
    case (Dir es)
    obtain m ms where "ns @ [k] = m # ms" by (cases "ns @ [k]") auto
    then show ?thesis
      using Cons.IH Dir by (auto simp flip: Cons.IH)
  qed
qed

lemma modify_modify: "modify ps f (modify ps g t) = modify ps (f \<circ> g) t"
proof (induction ps arbitrary: t)
  case Nil
  show ?case by simp
next
  case (Cons n ns)
  then show ?case by (cases t) auto
qed

lemma modify_append: "modify (ps @ qs) f t = modify ps (modify qs f) t"
proof (induction ps arbitrary: t)
  case Nil
  show ?case by simp
next
  case (Cons n ns)
  then show ?case by (cases t) auto
qed

lemma map_of_map_entry:
  "map_of (map (\<lambda>e. if fst e = n then (n, g (snd e)) else e) es) k
     = (if k = n then map_option g (map_of es n) else map_of es k)"
  by (induction es) auto

lemma resolve_modify: "resolve ps (modify ps f t) = map_option f (resolve ps t)"
proof (induction ps arbitrary: t)
  case Nil
  show ?case by simp
next
  case (Cons n ns)
  then show ?case
    by (cases t) (auto simp: map_of_map_entry split: option.splits)
qed

lemma rm_modify_child: "rm k (modify [k] g t) = rm k t"
proof (cases t)
  case (File c)
  then show ?thesis by (simp add: rm_def)
next
  case (Dir es)
  have "filter (\<lambda>e. fst e \<noteq> k) (map (\<lambda>e. if fst e = k then (k, g (snd e)) else e) es)
        = filter (\<lambda>e. fst e \<noteq> k) es"
    by (induction es) auto
  with Dir show ?thesis by (simp add: rm_def cong: if_cong)
qed

lemma prune_modify_same: "ps \<noteq> [] \<Longrightarrow> prune ps (modify ps g t) = prune ps t"
proof -
  assume "ps \<noteq> []"
  then obtain qs k where ps: "ps = qs @ [k]"
    by (metis rev_exhaust)
  have "rm k \<circ> modify [k] g = rm k"
    by (rule ext) (simp add: rm_modify_child)
  then show ?thesis
    by (simp add: ps prune_snoc modify_append modify_modify)
qed

lemma map_of_filter_fst: "map_of (filter (\<lambda>e. fst e \<noteq> n) es) k = (if k = n then None else map_of es k)"
  by (induction es) auto

lemma resolve_prune_same: "ps \<noteq> [] \<Longrightarrow> resolve (ps @ qs) (prune ps t) = None"
proof -
  assume "ps \<noteq> []"
  then obtain rs k where ps: "ps = rs @ [k]"
    by (metis rev_exhaust)
  have "resolve (k # qs) (rm k u) = None" for u
    by (cases u) (simp_all add: rm_def map_of_filter_fst)
  then show ?thesis
    by (simp add: ps prune_snoc resolve_append [of rs] resolve_modify split: option.splits)
qed

lemma resolve_modify_other:
  "\<not> prefix ps qs \<Longrightarrow> \<not> prefix qs ps \<Longrightarrow> resolve qs (modify ps f t) = resolve qs t"
proof (induction ps arbitrary: qs t)
  case Nil
  then show ?case by simp
next
  case (Cons n ns)
  then obtain m ms where qs: "qs = m # ms" by (cases qs) auto
  show ?case
  proof (cases t)
    case (File c)
    then show ?thesis by simp
  next
    case (Dir es)
    show ?thesis
    proof (cases "m = n")
      case True
      with Cons.prems qs have "\<not> prefix ns ms" "\<not> prefix ms ns" by auto
      then have "resolve ms (modify ns f u) = resolve ms u" for u
        by (rule Cons.IH)
      with True qs Dir show ?thesis
        by (simp add: map_of_map_entry split: option.splits)
    next
      case False
      with qs Dir show ?thesis
        by (simp add: map_of_map_entry)
    qed
  qed
qed

lemma resolve_prune_other:
  assumes "\<not> prefix ps qs" and "\<not> prefix qs ps"
  shows "resolve qs (prune ps t) = resolve qs t"
proof (cases ps rule: rev_cases)
  case Nil
  with assms show ?thesis by simp
next
  case (snoc rs k)
  show ?thesis
  proof (cases "prefix rs qs")
    case False
    moreover have "\<not> prefix qs rs"
      using assms(2) snoc by (auto simp: prefix_def)
    ultimately show ?thesis
      by (simp add: snoc prune_snoc resolve_modify_other)
  next
    case True
    then obtain us where qs: "qs = rs @ us" by (auto simp: prefix_def)
    with assms snoc obtain m ms where us: "us = m # ms" and mk: "m \<noteq> k"
      by (cases us) auto
    have "resolve (m # ms) (rm k u) = resolve (m # ms) u" for u
      using mk by (cases u) (simp_all add: rm_def map_of_filter_fst)
    then show ?thesis
      by (simp add: snoc qs us prune_snoc resolve_append [of rs] resolve_modify split: option.splits)
  qed
qed

section \<open>Removing a directory tree\<close>

lemma wf_resolve: "wf_node t \<Longrightarrow> resolve ps t = Some u \<Longrightarrow> wf_node u"
proof (induction ps arbitrary: t)
  case Nil
  then show ?case by simp
next
  case (Cons n ns)
  then show ?case
    by (cases t) (auto split: option.splits dest!: map_of_SomeD)
qed

lemma wf_modify:
  assumes "\<And>u. wf_node u \<Longrightarrow> wf_node (f u)"
  shows "wf_node t \<Longrightarrow> wf_node (modify ps f t)"
proof (induction ps arbitrary: t)
  case Nil
  then show ?case by (simp add: assms)
next
  case (Cons n ns)
  show ?case
  proof (cases t)
    case (File c)
    then show ?thesis by simp
  next
    case (Dir es)
    let ?upd = "\<lambda>e. if fst e = n then (n, modify ns f (snd e)) else e"
    have mf: "map fst (map ?upd es) = map fst es"
      by (induction es) auto
    have "distinct (map fst (map ?upd es))"
      unfolding mf using Cons.prems Dir by simp
    moreover have "\<forall>e\<in>set (map ?upd es). valid_name (fst e) \<and> wf_node (snd e)"
      using Cons.prems Dir Cons.IH by auto
    ultimately show ?thesis
      unfolding Dir modify.simps wf_node.simps by blast
  qed
qed

lemma wf_rm: "wf_node u \<Longrightarrow> wf_node (rm k u)"
  by (cases u) (auto simp: rm_def distinct_map_filter)

lemma wf_prune: "wf_node t \<Longrightarrow> wf_node (prune ps t)"
proof (cases ps rule: rev_cases)
  case Nil
  then show "wf_node t \<Longrightarrow> ?thesis" by simp
next
  case (snoc rs k)
  then show "wf_node t \<Longrightarrow> ?thesis"
    by (simp add: prune_snoc wf_modify wf_rm)
qed

lemma modify_id:
  "wf_node t \<Longrightarrow> resolve ps t = Some u \<Longrightarrow> f u = u \<Longrightarrow> modify ps f t = t"
proof (induction ps arbitrary: t)
  case Nil
  then show ?case by simp
next
  case (Cons n ns)
  show ?case
  proof (cases t)
    case (File c)
    then show ?thesis by simp
  next
    case (Dir es)
    with Cons.prems obtain c where c: "map_of es n = Some c" and r: "resolve ns c = Some u"
      by (auto split: option.splits)
    have d: "distinct (map fst es)" and w: "\<forall>e\<in>set es. wf_node (snd e)"
      using Cons.prems(1) Dir by auto
    have "(if fst e = n then (n, modify ns f (snd e)) else e) = e" if "e \<in> set es" for e
    proof (cases "fst e = n")
      case True
      with that d c have "snd e = c"
        by (metis map_of_is_SomeI option.inject prod.collapse)
      moreover have "modify ns f c = c"
        using w that \<open>snd e = c\<close> r Cons.prems(3) by (intro Cons.IH) auto
      ultimately show ?thesis using True by (cases e) auto
    next
      case False
      then show ?thesis by simp
    qed
    then have "map (\<lambda>e. if fst e = n then (n, modify ns f (snd e)) else e) es = es"
      by (simp add: map_idI)
    with Dir show ?thesis by simp
  qed
qed


lemma is_dir_at_snoc: "is_dir_at (ps @ [k]) t \<Longrightarrow> is_dir_at ps t"
  by (auto simp: is_dir_at_def resolve_append split: option.splits node.splits)

lemma is_dir_at_Dir: "resolve ps t = Some (Dir es) \<Longrightarrow> is_dir_at ps t"
  by (simp add: is_dir_at_def)

lemma os_remove_file:
  "resolve (components p) (root w) = Some (File c) \<Longrightarrow>
   os_remove p w = (Inr (), w\<lparr>root := prune (components p) (root w), hist := hist w @ [root w]\<rparr>)"
  by (simp add: os_remove_def commit_def)

lemma os_rmdir_empty:
  "resolve (components p) (root w) = Some (Dir []) \<Longrightarrow> components p \<noteq> [] \<Longrightarrow>
   os_rmdir p w = (Inr (), w\<lparr>root := prune (components p) (root w), hist := hist w @ [root w]\<rparr>)"
  by (simp add: os_rmdir_def commit_def)

lemma os_ilistdir_Dir:
  "resolve (components p) (root w) = Some (Dir es) \<Longrightarrow>
   os_ilistdir p w = (Inr (map (\<lambda>e. (fst e, entry_type (snd e))) es), w)"
  by (simp add: os_ilistdir_def)

text \<open>
  What \<open>rmtree\<close> does with call depth \<open>fuel\<close>, for every directory that is not nested
  deeper than that.
\<close>

definition rmtree_spec :: "nat \<Rightarrow> bool" where
  "rmtree_spec fuel =
     (\<forall>d w es. components d \<noteq> [] \<longrightarrow> wf_node (root w)
        \<longrightarrow> resolve (components d) (root w) = Some (Dir es) \<longrightarrow> height (Dir es) \<le> fuel
        \<longrightarrow> (\<exists>h. rmtree fuel d w
                    = (Inr (), w\<lparr>root := prune (components d) (root w), hist := hist w @ h\<rparr>)
                 \<and> (\<forall>\<sigma>\<in>set h. is_dir_at (components d) \<sigma>)))"

lemma rmtree_entries_ok:
  assumes IH: "rmtree_spec depth"
  shows "wf_node (root w) \<Longrightarrow> resolve (components d) (root w) = Some (Dir rest)
    \<Longrightarrow> \<forall>e\<in>set rest. height (snd e) \<le> depth
    \<Longrightarrow> \<exists>h. rmtree_entries depth d (map (\<lambda>e. (fst e, entry_type (snd e))) rest) w
              = (Inr (), w\<lparr>root := modify (components d) (\<lambda>_. Dir []) (root w), hist := hist w @ h\<rparr>)
            \<and> (\<forall>\<sigma>\<in>set h. is_dir_at (components d) \<sigma>)"
proof (induction rest arbitrary: w)
  case Nil
  have "modify (components d) (\<lambda>_. Dir []) (root w) = root w"
    using Nil.prems(1,2) by (rule modify_id) simp
  then show ?case
    by (intro exI [of _ "[]"]) (simp add: return_io_def)
next
  case (Cons e rest)
  let ?ps = "components d"
  obtain k c where e: "e = (k, c)" by (cases e)
  have wfd: "wf_node (Dir (e # rest))"
    using Cons.prems(1,2) by (rule wf_resolve)
  then have vk: "valid_name k" and wfc: "wf_node c" and kn: "k \<notin> fst ` set rest"
    by (auto simp: e)
  have comps: "components (d @ ''/'' @ k) = ?ps @ [k]"
    using vk by (rule components_child)
  have comps': "components (d @ CHR ''/'' # k) = ?ps @ [k]"
    using comps by simp
  have rc: "resolve (?ps @ [k]) (root w) = Some c"
    using Cons.prems(2) by (simp add: resolve_append e)
  have "\<exists>h. (if entry_type c = 0x4000 then rmtree depth (d @ ''/'' @ k)
              else os_remove (d @ ''/'' @ k)) w
         = (Inr (), w\<lparr>root := prune (?ps @ [k]) (root w), hist := hist w @ h\<rparr>)
         \<and> (\<forall>\<sigma>\<in>set h. is_dir_at ?ps \<sigma>)"
  proof (cases c)
    case (File x)
    have "os_remove (d @ ''/'' @ k) w
        = (Inr (), w\<lparr>root := prune (?ps @ [k]) (root w), hist := hist w @ [root w]\<rparr>)"
      using os_remove_file [of "d @ ''/'' @ k" w x] rc File by (simp only: comps)
    moreover have "is_dir_at ?ps (root w)"
      using Cons.prems(2) by (rule is_dir_at_Dir)
    ultimately show ?thesis
      using File by (intro exI [of _ "[root w]"]) (simp add: entry_type_def)
  next
    case (Dir es)
    have h: "height (Dir es) \<le> depth"
      using Cons.prems(3) e Dir by simp
    have "components (d @ ''/'' @ k) \<noteq> []"
      by (simp only: comps) simp
    moreover have "resolve (components (d @ ''/'' @ k)) (root w) = Some (Dir es)"
      using rc Dir by (simp only: comps)
    ultimately obtain h' where
      1: "rmtree depth (d @ ''/'' @ k) w
          = (Inr (), w\<lparr>root := prune (components (d @ ''/'' @ k)) (root w), hist := hist w @ h'\<rparr>)"
      and 2: "\<forall>\<sigma>\<in>set h'. is_dir_at (components (d @ ''/'' @ k)) \<sigma>"
      using IH Cons.prems(1) h unfolding rmtree_spec_def by blast
    have "\<forall>\<sigma>\<in>set h'. is_dir_at ?ps \<sigma>"
      using 2 unfolding comps by (blast intro: is_dir_at_snoc)
    with 1 Dir show ?thesis
      by (intro exI [of _ h']) (simp add: entry_type_def comps')
  qed
  then obtain h1 where
    s1: "(if entry_type c = 0x4000 then rmtree depth (d @ ''/'' @ k)
              else os_remove (d @ ''/'' @ k)) w
         = (Inr (), w\<lparr>root := prune (?ps @ [k]) (root w), hist := hist w @ h1\<rparr>)"
    and d1: "\<forall>\<sigma>\<in>set h1. is_dir_at ?ps \<sigma>"
    by blast
  let ?w1 = "w\<lparr>root := prune (?ps @ [k]) (root w), hist := hist w @ h1\<rparr>"
  have wf1: "wf_node (root ?w1)"
    using Cons.prems(1) by (simp add: wf_prune)
  have "rm k (Dir (e # rest)) = Dir rest"
    using kn by (auto simp: rm_def e intro: filter_True)
  then have r1: "resolve ?ps (root ?w1) = Some (Dir rest)"
    using Cons.prems(2) by (simp add: prune_snoc resolve_modify)
  have h1: "\<forall>e\<in>set rest. height (snd e) \<le> depth"
    using Cons.prems(3) by simp
  obtain h2 where
    s2: "rmtree_entries depth d (map (\<lambda>e. (fst e, entry_type (snd e))) rest) ?w1
         = (Inr (), ?w1\<lparr>root := modify ?ps (\<lambda>_. Dir []) (root ?w1), hist := hist ?w1 @ h2\<rparr>)"
    and d2: "\<forall>\<sigma>\<in>set h2. is_dir_at ?ps \<sigma>"
    using Cons.IH [OF wf1 r1 h1] by blast
  have "(\<lambda>_. Dir []) \<circ> rm k = (\<lambda>_. Dir [])"
    by (rule ext) simp
  then have m: "modify ?ps (\<lambda>_. Dir []) (root ?w1) = modify ?ps (\<lambda>_. Dir []) (root w)"
    by (simp add: prune_snoc modify_modify)
  have "rmtree_entries depth d (map (\<lambda>e. (fst e, entry_type (snd e))) (e # rest)) w
        = rmtree_entries depth d (map (\<lambda>e. (fst e, entry_type (snd e))) rest) ?w1"
    unfolding e list.map fst_conv snd_conv rmtree_entries.simps
    by (simp only: bind_io_def s1 prod.case sum.case)
  also note s2
  finally have "rmtree_entries depth d (map (\<lambda>e. (fst e, entry_type (snd e))) (e # rest)) w
        = (Inr (), w\<lparr>root := modify ?ps (\<lambda>_. Dir []) (root w), hist := hist w @ h1 @ h2\<rparr>)"
    using m by simp
  with d1 d2 show ?case
    by (intro exI [of _ "h1 @ h2"]) auto
qed

lemma rmtree_ok: "rmtree_spec fuel"
proof (induction fuel)
  case 0
  show ?case
    by (simp add: rmtree_spec_def)
next
  case (Suc depth)
  show ?case
    unfolding rmtree_spec_def
  proof (intro allI impI)
    fix d and w :: world and es
    let ?ps = "components d"
    assume ne: "?ps \<noteq> []" and wf: "wf_node (root w)"
      and r: "resolve ?ps (root w) = Some (Dir es)" and h: "height (Dir es) \<le> Suc depth"
    have hc: "\<forall>e\<in>set es. height (snd e) \<le> depth"
      using h by (auto intro: height_child)
    obtain h1 where
      1: "rmtree_entries depth d (map (\<lambda>e. (fst e, entry_type (snd e))) es) w
          = (Inr (), w\<lparr>root := modify ?ps (\<lambda>_. Dir []) (root w), hist := hist w @ h1\<rparr>)"
      and d1: "\<forall>\<sigma>\<in>set h1. is_dir_at ?ps \<sigma>"
      using rmtree_entries_ok [OF Suc wf r hc] by blast
    let ?w1 = "w\<lparr>root := modify ?ps (\<lambda>_. Dir []) (root w), hist := hist w @ h1\<rparr>"
    have r1: "resolve ?ps (root ?w1) = Some (Dir [])"
      using r by (simp add: resolve_modify)
    have 2: "os_rmdir d ?w1
        = (Inr (), ?w1\<lparr>root := prune ?ps (root ?w1), hist := hist ?w1 @ [root ?w1]\<rparr>)"
      using r1 ne by (rule os_rmdir_empty)
    have "rmtree (Suc depth) d w
        = (Inr (), w\<lparr>root := prune ?ps (root w), hist := hist w @ h1 @ [root ?w1]\<rparr>)"
      using os_ilistdir_Dir [OF r] 1 2 ne
      by (simp add: bind_io_def prune_modify_same)
    moreover have "is_dir_at ?ps (root ?w1)"
      using r1 by (rule is_dir_at_Dir)
    ultimately show "\<exists>h. rmtree (Suc depth) d w
                    = (Inr (), w\<lparr>root := prune ?ps (root w), hist := hist w @ h\<rparr>)
                 \<and> (\<forall>\<sigma>\<in>set h. is_dir_at ?ps \<sigma>)"
      using d1 by (intro exI [of _ "h1 @ [root ?w1]"]) auto
  qed
qed

definition put :: "string \<Rightarrow> node \<Rightarrow> node \<Rightarrow> node" where
  "put k u t =
     (case t of
        Dir es \<Rightarrow> Dir (if k \<in> fst ` set es then map (\<lambda>e. if fst e = k then (k, u) else e) es
                       else es @ [(k, u)])
      | File c \<Rightarrow> File c)"

lemma graft_snoc: "graft (ps @ [k]) u t = modify ps (put k u) t"
proof (induction ps arbitrary: t)
  case Nil
  show ?case by (cases t) (simp_all add: put_def)
next
  case (Cons n ns)
  show ?case
  proof (cases t)
    case (File c)
    then show ?thesis by simp
  next
    case (Dir es)
    obtain m ms where "ns @ [k] = m # ms" by (cases "ns @ [k]") auto
    then show ?thesis
      using Cons.IH Dir by (auto simp flip: Cons.IH)
  qed
qed

lemma map_of_map_const:
  "map_of (map (\<lambda>e. if fst e = k then (k, u) else e) es) m
     = (if m = k then map_option (\<lambda>_. u) (map_of es k) else map_of es m)"
  by (induction es) auto

lemma resolve_put: "resolve (k # qs) (put k u (Dir es)) = resolve qs u"
proof (cases "k \<in> fst ` set es")
  case True
  then obtain x where "map_of es k = Some x"
    by (metis domD dom_map_of_conv_image_fst)
  with True show ?thesis
    by (simp add: put_def map_of_map_const)
next
  case False
  then have "map_of es k = None"
    by (simp add: map_of_eq_None_iff)
  with False show ?thesis
    by (simp add: put_def map_add_def)
qed

lemma resolve_graft_same:
  assumes "ps \<noteq> []" and "is_dir_at (butlast ps) t"
  shows "resolve (ps @ qs) (graft ps u t) = resolve qs u"
proof -
  from assms(1) obtain rs k where ps: "ps = rs @ [k]"
    by (metis rev_exhaust)
  from assms(2) obtain es where "resolve rs t = Some (Dir es)"
    by (auto simp: ps is_dir_at_def split: option.splits node.splits)
  then show ?thesis
    using resolve_put [of k qs u es]
    by (simp add: ps graft_snoc resolve_append [of rs])  (simp add: resolve_modify)
qed

lemma put_other: "m \<noteq> k \<Longrightarrow> resolve (m # ms) (put k u t) = resolve (m # ms) t"
proof (cases t)
  case (File c)
  then show ?thesis by (simp add: put_def)
next
  case (Dir es)
  assume "m \<noteq> k"
  then show ?thesis
    using Dir by (auto simp: put_def map_of_map_const map_add_def split: option.splits)
qed

lemma resolve_graft_other:
  assumes "\<not> prefix ps qs" and "\<not> prefix qs ps"
  shows "resolve qs (graft ps u t) = resolve qs t"
proof (cases ps rule: rev_cases)
  case Nil
  with assms show ?thesis by simp
next
  case (snoc rs k)
  show ?thesis
  proof (cases "prefix rs qs")
    case False
    moreover have "\<not> prefix qs rs"
      using assms(2) snoc by (auto simp: prefix_def)
    ultimately show ?thesis
      by (simp add: snoc graft_snoc resolve_modify_other)
  next
    case True
    then obtain us where qs: "qs = rs @ us" by (auto simp: prefix_def)
    with assms snoc obtain m ms where us: "us = m # ms" and mk: "m \<noteq> k"
      by (cases us) auto
    show ?thesis
      using put_other [OF mk]
      by (simp add: snoc qs us graft_snoc resolve_append [of rs] resolve_modify split: option.splits)
  qed
qed

lemma modify_keeps_Dir: "\<exists>es'. modify vs (rm k) (Dir es) = Dir es'"
  by (cases vs) (simp_all add: rm_def)

lemma is_dir_at_prune:
  assumes "is_dir_at rs t" and "\<not> prefix ps rs"
  shows "is_dir_at rs (prune ps t)"
proof (cases "prefix rs ps")
  case False
  with assms show ?thesis
    by (simp add: is_dir_at_def resolve_prune_other)
next
  case True
  with assms(2) obtain us where ps: "ps = rs @ us" and "us \<noteq> []"
    by (auto simp: prefix_def)
  then obtain vs k where us: "us = vs @ [k]"
    by (metis rev_exhaust)
  from assms(1) obtain es where r: "resolve rs t = Some (Dir es)"
    by (auto simp: is_dir_at_def split: option.splits node.splits)
  have "prune ps t = modify rs (modify vs (rm k)) t"
    using prune_snoc [of "rs @ vs" k t] by (simp add: ps us modify_append)
  then show ?thesis
    using r modify_keeps_Dir [of vs k es]
    by (auto simp: is_dir_at_def resolve_modify)
qed

lemma components_empty [simp]: "components [] = []"
  by (simp add: components_def)

lemma components_gmp:
  "components (get_module_and_path U p) = components (module U) @ components p"
  using components_join [of "module U" p] by (simp add: get_module_and_path_def)

lemma components_next: "components ''next'' = [''next'']"
  by (rule components_name) (simp add: valid_name_def)

lemma components_version: "components (d @ ''/'' @ ''.version'') = components d @ [''.version'']"
  by (rule components_child) (simp add: valid_name_def)

lemma path_exists_iff:
  "path_exists p w = (Inr (resolve (components p) (root w) \<noteq> None), w)"
  by (simp add: path_exists_def os_stat_def split: option.splits)

lemma get_version_marker:
  assumes "resolve (components d) (root w) = Some (Dir es)" and "map_of es ''.version'' = Some (File v)"
  shows "get_version d w = (Inr (Some v), w)"
proof -
  have "''.version'' \<in> set (map fst es)"
    using assms(2) by (metis map_of_SomeD fst_conv image_eqI set_map)
  moreover have "resolve (components (d @ ''/'' @ ''.version'')) (root w) = Some (File v)"
    using assms by (simp only: components_version) (simp add: resolve_append)
  ultimately show ?thesis
    using assms(1)
    by (simp add: get_version_def path_exists_iff os_listdir_def open_read_def bind_io_def return_io_def)
qed

lemma rmtree_result:
  assumes "wf_node (root w)" and "components d \<noteq> []"
    and "resolve (components d) (root w) = Some (Dir es)" and "height (Dir es) \<le> fuel"
  shows "\<exists>h. rmtree fuel d w
               = (Inr (), w\<lparr>root := prune (components d) (root w), hist := hist w @ h\<rparr>)"
  using rmtree_ok [of fuel] assms
  unfolding rmtree_spec_def by blast

text \<open>
  C8. In a well-formed file system let \<open>d\<close> name a directory other than the current one,
  of any nesting depth that the call depth \<open>fuel\<close> covers. Then \<open>rmtree\<close> returns without an
  error; afterwards \<open>d\<close> is taken out of its parent directory, so that neither \<open>d\<close> nor
  any path below it exists, and every path beside it is as before. In every state passed
  through on the way the directory \<open>d\<close> itself is still there: it goes last, after all
  it contained (\<open>os.rmdir\<close> only removes an empty directory). Directories are told from
  files by the type field \<open>0x4000\<close> of \<open>os.ilistdir\<close>.
\<close>

theorem C8_rmtree:
  assumes "wf_node (root w)" and "components d \<noteq> []"
    and "resolve (components d) (root w) = Some (Dir es)" and "height (Dir es) \<le> fuel"
  shows "(\<exists>h. rmtree fuel d w
                = (Inr (), w\<lparr>root := prune (components d) (root w), hist := hist w @ h\<rparr>)
              \<and> (\<forall>\<sigma>\<in>set h. is_dir_at (components d) \<sigma>))
       \<and> (\<forall>qs. resolve (components d @ qs) (prune (components d) (root w)) = None)
       \<and> (\<forall>qs. \<not> prefix (components d) qs \<and> \<not> prefix qs (components d)
              \<longrightarrow> resolve qs (prune (components d) (root w)) = resolve qs (root w))"
  using rmtree_ok [of fuel] assms
  unfolding rmtree_spec_def
  by (simp add: resolve_prune_same resolve_prune_other)

text \<open>A tree with three levels below \<open>main\<close>, and a device that holds a given tree.\<close>

definition fs_demo :: node where
  "fs_demo = Dir [(''main'', Dir [(''.version'', File ''v1''), (''a.py'', File ''old''),
                     (''sub'', Dir [(''b.py'', File ''y''), (''deep'', Dir [(''c'', File [])])])]),
                  (''keep'', File ''k'')]"

definition w_demo :: "node \<Rightarrow> world" where
  "w_demo t = \<lparr>root = t, hist = [], socks = [], resps = []\<rparr>"


theorem C8_rmtree_witness:
  "fst (rmtree 3 ''main'' (w_demo fs_demo)) = Inr ()
   \<and> root (snd (rmtree 3 ''main'' (w_demo fs_demo))) = Dir [(''keep'', File ''k'')]"
proof -
  let ?es = "[(''.version'', File ''v1''), (''a.py'', File ''old''),
              (''sub'', Dir [(''b.py'', File ''y''), (''deep'', Dir [(''c'', File [])])])]"
  have 1: "wf_node (root (w_demo fs_demo))" by code_simp
  have 2: "components ''main'' \<noteq> []" by code_simp
  have 3: "resolve (components ''main'') (root (w_demo fs_demo)) = Some (Dir ?es)" by code_simp
  have 4: "height (Dir ?es) \<le> 3" by code_simp
  have 5: "prune (components ''main'') (root (w_demo fs_demo)) = Dir [(''keep'', File ''k'')]"
    by code_simp
  from C8_rmtree [OF 1 2 3 4] obtain h where
    "rmtree 3 ''main'' (w_demo fs_demo)
       = (Inr (), (w_demo fs_demo)\<lparr>root := prune (components ''main'') (root (w_demo fs_demo)),
                    hist := hist (w_demo fs_demo) @ h\<rparr>)"
    by blast
  then show ?thesis
    by (simp add: 5)
qed

section \<open>Applying a pending update\<close>

lemma apply_pending_staging:
  assumes "resolve (components (get_module_and_path U ''next'')) (root w) = Some (Dir es)"
  shows "apply_pending_updates_if_available E U w
    = (if ''.version'' \<in> fst ` set es
       then bind_io (get_version (get_module_and_path U ''next'')) (\<lambda>pending_update_version.
               bind_io (path_exists (get_module_and_path U (main_dir U))) (\<lambda>ex_main.
               bind_io (if ex_main
                        then rmtree (recursion_limit E) (get_module_and_path U (main_dir U))
                        else return_io ()) (\<lambda>_.
               os_rename (get_module_and_path U ''next'') (get_module_and_path U (main_dir U))))) w
       else rmtree (recursion_limit E) (get_module_and_path U ''next'') w)"
proof -
  from assms obtain ms where m: "resolve (components (module U)) (root w) = Some (Dir ms)"
    and n: "map_of ms ''next'' = Some (Dir es)"
    by (auto simp: components_gmp components_next resolve_append split: option.splits node.splits)
  from n have "''next'' \<in> set (map fst ms)"
    by (metis map_of_SomeD fst_conv image_eqI set_map)
  then show ?thesis
    using m assms
    by (simp add: apply_pending_updates_if_available_def path_exists_iff os_listdir_def
        bind_io_def return_io_def)
qed

text \<open>
  C3. In a well-formed file system let the staging directory \<open>next\<close> exist, within the
  call depth, without an entry \<open>.version\<close>, and let the live path lie beside it (neither
  path inside the other). Then \<open>apply_pending_updates_if_available\<close> returns without an
  error, the staging directory and all below it are gone, and the live path resolves to
  the very same tree as before, or to nothing as before.
\<close>

theorem C3_discard_staging:
  assumes "wf_node (root w)"
    and "resolve (components (get_module_and_path U ''next'')) (root w) = Some (Dir es)"
    and "''.version'' \<notin> fst ` set es"
    and "height (Dir es) \<le> recursion_limit E"
    and "\<not> prefix (components (get_module_and_path U ''next''))
                   (components (get_module_and_path U (main_dir U)))"
    and "\<not> prefix (components (get_module_and_path U (main_dir U)))
                   (components (get_module_and_path U ''next''))"
  shows "(\<exists>h. apply_pending_updates_if_available E U w
            = (Inr (), w\<lparr>root := prune (components (get_module_and_path U ''next'')) (root w),
                          hist := hist w @ h\<rparr>))
       \<and> (\<forall>qs. resolve (components (get_module_and_path U ''next'') @ qs)
                 (prune (components (get_module_and_path U ''next'')) (root w)) = None)
       \<and> resolve (components (get_module_and_path U (main_dir U)))
                 (prune (components (get_module_and_path U ''next'')) (root w))
           = resolve (components (get_module_and_path U (main_dir U))) (root w)"
proof -
  let ?next = "get_module_and_path U ''next''"
  have ne: "components ?next \<noteq> []"
    by (simp add: components_gmp components_next)
  have "apply_pending_updates_if_available E U w = rmtree (recursion_limit E) ?next w"
    using assms(3) by (simp add: apply_pending_staging [OF assms(2)])
  moreover have "\<exists>h. rmtree (recursion_limit E) ?next w
            = (Inr (), w\<lparr>root := prune (components ?next) (root w), hist := hist w @ h\<rparr>)"
    using assms(1) ne assms(2,4) by (rule rmtree_result)
  ultimately show ?thesis
    using ne assms(5,6) by (simp add: resolve_prune_same resolve_prune_other)
qed

lemma butlast_prefix: "prefix (butlast xs) xs"
  by (cases xs rule: rev_cases) auto

lemma not_prefix_butlast: "\<not> prefix ps qs \<Longrightarrow> \<not> prefix ps (butlast qs)"
  using butlast_prefix [of qs] by (metis prefix_order.trans)

lemma not_prefix_self_butlast: "qs \<noteq> [] \<Longrightarrow> \<not> prefix qs (butlast qs)"
proof
  assume ne: "qs \<noteq> []" and "prefix qs (butlast qs)"
  then have "length qs \<le> length (butlast qs)"
    by (rule_tac prefix_length_le)
  moreover have "length (butlast qs) < length qs"
    using ne by (cases qs rule: rev_cases) auto
  ultimately show False by arith
qed

lemma rename_staging:
  assumes "resolve (components old) (root w) = Some t"
    and "resolve (components new) (root w) = None"
    and "is_dir_at (butlast (components new)) (root w)"
    and "\<not> prefix (components old) (components new)"
    and "\<not> prefix (components new) (components old)"
  shows "os_rename old new w
         = (Inr (), w\<lparr>root := graft (components new) t (prune (components old) (root w)),
                      hist := hist w @ [root w]\<rparr>)"
proof -
  have o: "components old \<noteq> []" and n: "components new \<noteq> []"
    using assms(4,5) by auto
  have "\<not> prefix (components old) (butlast (components new))"
    using assms(4) by (rule not_prefix_butlast)
  with assms(3) have "is_dir_at (butlast (components new)) (prune (components old) (root w))"
    by (rule is_dir_at_prune)
  with assms(1,2) o n show ?thesis
    by (simp add: os_rename_def commit_def)
qed

text \<open>
  C2. In a well-formed file system let the staging directory \<open>next\<close> hold a file
  \<open>.version\<close> with content \<open>v\<close>; let the live path lie beside it, in a directory that
  exists, and be absent or a directory within the call depth. Then
  \<open>apply_pending_updates_if_available\<close> returns without an error; afterwards the live
  path holds exactly the tree that was staged (the old live tree is gone), the staging
  path does not exist, and \<open>get_version\<close> of the live tree gives \<open>v\<close>.
\<close>

theorem C2_promote_staging:
  assumes wf: "wf_node (root w)"
    and st: "resolve (components (get_module_and_path U ''next'')) (root w) = Some (Dir es)"
    and mk: "map_of es ''.version'' = Some (File v)"
    and live: "resolve (components (get_module_and_path U (main_dir U))) (root w) = None
       \<or> (\<exists>ls. resolve (components (get_module_and_path U (main_dir U))) (root w) = Some (Dir ls)
                \<and> height (Dir ls) \<le> recursion_limit E)"
    and par: "is_dir_at (butlast (components (get_module_and_path U (main_dir U)))) (root w)"
    and inc: "\<not> prefix (components (get_module_and_path U ''next''))
                     (components (get_module_and_path U (main_dir U)))"
             "\<not> prefix (components (get_module_and_path U (main_dir U)))
                     (components (get_module_and_path U ''next''))"
  shows "fst (apply_pending_updates_if_available E U w) = Inr ()
    \<and> resolve (components (get_module_and_path U (main_dir U)))
         (root (snd (apply_pending_updates_if_available E U w))) = Some (Dir es)
    \<and> resolve (components (get_module_and_path U ''next''))
         (root (snd (apply_pending_updates_if_available E U w))) = None
    \<and> fst (get_version (get_module_and_path U (main_dir U))
            (snd (apply_pending_updates_if_available E U w))) = Inr (Some v)"
proof -
  let ?next = "get_module_and_path U ''next''"
  let ?main = "get_module_and_path U (main_dir U)"
  let ?ps = "components ?next"
  let ?qs = "components ?main"
  have qne: "?qs \<noteq> []" using inc(2) by auto
  have vin: "''.version'' \<in> fst ` set es"
    using mk by (metis map_of_SomeD fst_conv image_eqI)
  have gv: "get_version ?next w = (Inr (Some v), w)"
    using st mk by (rule get_version_marker)
  have "\<exists>w1. bind_io (path_exists ?main) (\<lambda>ex_main.
               bind_io (if ex_main then rmtree (recursion_limit E) ?main else return_io ())
                 (\<lambda>_. os_rename ?next ?main)) w = os_rename ?next ?main w1
          \<and> resolve ?ps (root w1) = Some (Dir es) \<and> resolve ?qs (root w1) = None
          \<and> is_dir_at (butlast ?qs) (root w1)"
    using live
  proof
    assume a: "resolve ?qs (root w) = None"
    then have "bind_io (path_exists ?main) (\<lambda>ex_main.
               bind_io (if ex_main then rmtree (recursion_limit E) ?main else return_io ())
                 (\<lambda>_. os_rename ?next ?main)) w = os_rename ?next ?main w"
      by (simp add: bind_io_def path_exists_iff return_io_def)
    with a st par show ?thesis by blast
  next
    assume "\<exists>ls. resolve ?qs (root w) = Some (Dir ls) \<and> height (Dir ls) \<le> recursion_limit E"
    then obtain ls where r: "resolve ?qs (root w) = Some (Dir ls)"
      and h: "height (Dir ls) \<le> recursion_limit E" by blast
    obtain hs where rm: "rmtree (recursion_limit E) ?main w
        = (Inr (), w\<lparr>root := prune ?qs (root w), hist := hist w @ hs\<rparr>)"
      using rmtree_result [OF wf qne r h] by blast
    let ?w1 = "w\<lparr>root := prune ?qs (root w), hist := hist w @ hs\<rparr>"
    have "bind_io (path_exists ?main) (\<lambda>ex_main.
               bind_io (if ex_main then rmtree (recursion_limit E) ?main else return_io ())
                 (\<lambda>_. os_rename ?next ?main)) w = os_rename ?next ?main ?w1"
      using r rm by (simp add: bind_io_def path_exists_iff)
    moreover have "resolve ?ps (root ?w1) = Some (Dir es)"
      using st inc by (simp add: resolve_prune_other)
    moreover have "resolve ?qs (root ?w1) = None"
      using resolve_prune_same [OF qne, of "[]"] by simp
    moreover have "\<not> prefix ?qs (butlast ?qs)"
      using qne by (rule not_prefix_self_butlast)
    then have "is_dir_at (butlast ?qs) (root ?w1)"
      using par by (simp add: is_dir_at_prune)
    ultimately show ?thesis by blast
  qed
  then obtain w1 where
    1: "bind_io (path_exists ?main) (\<lambda>ex_main.
               bind_io (if ex_main then rmtree (recursion_limit E) ?main else return_io ())
                 (\<lambda>_. os_rename ?next ?main)) w = os_rename ?next ?main w1"
    and s1: "resolve ?ps (root w1) = Some (Dir es)" and l1: "resolve ?qs (root w1) = None"
    and p1: "is_dir_at (butlast ?qs) (root w1)"
    by blast
  let ?w2 = "w1\<lparr>root := graft ?qs (Dir es) (prune ?ps (root w1)), hist := hist w1 @ [root w1]\<rparr>"
  have 2: "os_rename ?next ?main w1 = (Inr (), ?w2)"
    using s1 l1 p1 inc by (rule rename_staging)
  have ap: "apply_pending_updates_if_available E U w = (Inr (), ?w2)"
    using vin gv 1 2 by (simp add: apply_pending_staging [OF st] bind_io_def)
  have pne: "?ps \<noteq> []" using inc(1) by auto
  have "\<not> prefix ?ps (butlast ?qs)"
    using inc(1) by (rule not_prefix_butlast)
  with p1 have p2: "is_dir_at (butlast ?qs) (prune ?ps (root w1))"
    by (rule is_dir_at_prune)
  have a: "resolve ?qs (root ?w2) = Some (Dir es)"
    using resolve_graft_same [OF qne p2, of "[]" "Dir es"] by simp
  have b: "resolve ?ps (root ?w2) = None"
    using resolve_prune_same [OF pne, of "[]"] inc by (simp add: resolve_graft_other)
  have c: "get_version ?main ?w2 = (Inr (Some v), ?w2)"
    using a mk by (rule get_version_marker)
  show ?thesis
    unfolding ap using a b c by simp
qed

text \<open>An updater without a module directory, a corrupt and a complete staging tree.\<close>

definition U_demo :: updater where
  "U_demo = OTAUpdater ''https://github.com/u/r'' [] ''main''"

definition fs_corrupt :: node where
  "fs_corrupt = Dir [(''main'', Dir [(''.version'', File ''v1''), (''a.py'', File ''old'')]),
                     (''next'', Dir [(''a.py'', File ''new''), (''sub'', Dir [(''b.py'', File ''y'')])])]"

definition fs_staged :: node where
  "fs_staged = Dir [(''main'', Dir [(''.version'', File ''v1''), (''a.py'', File ''old'')]),
                    (''next'', Dir [(''a.py'', File ''new''), (''.version'', File ''v2'')])]"


theorem C3_discard_staging_witness:
  "fst (apply_pending_updates_if_available (E_demo []) U_demo (w_demo fs_corrupt)) = Inr ()
   \<and> root (snd (apply_pending_updates_if_available (E_demo []) U_demo (w_demo fs_corrupt)))
       = Dir [(''main'', Dir [(''.version'', File ''v1''), (''a.py'', File ''old'')])]"
proof -
  let ?es = "[(''a.py'', File ''new''), (''sub'', Dir [(''b.py'', File ''y'')])]"
  have 1: "wf_node (root (w_demo fs_corrupt))" by code_simp
  have 2: "resolve (components (get_module_and_path U_demo ''next'')) (root (w_demo fs_corrupt))
           = Some (Dir ?es)" by code_simp
  have 3: "''.version'' \<notin> fst ` set ?es" by code_simp
  have 4: "height (Dir ?es) \<le> recursion_limit (E_demo [])" by code_simp
  have 5: "\<not> prefix (components (get_module_and_path U_demo ''next''))
                   (components (get_module_and_path U_demo (main_dir U_demo)))" by code_simp
  have 6: "\<not> prefix (components (get_module_and_path U_demo (main_dir U_demo)))
                   (components (get_module_and_path U_demo ''next''))" by code_simp
  have 7: "prune (components (get_module_and_path U_demo ''next'')) (root (w_demo fs_corrupt))
           = Dir [(''main'', Dir [(''.version'', File ''v1''), (''a.py'', File ''old'')])]"
    by code_simp
  from C3_discard_staging [OF 1 2 3 4 5 6] obtain h where
    "apply_pending_updates_if_available (E_demo []) U_demo (w_demo fs_corrupt)
       = (Inr (), (w_demo fs_corrupt)\<lparr>root := prune (components (get_module_and_path U_demo ''next''))
             (root (w_demo fs_corrupt)), hist := hist (w_demo fs_corrupt) @ h\<rparr>)"
    by blast
  then show ?thesis
    by (simp add: 7)
qed

theorem C2_promote_staging_witness:
  "fst (apply_pending_updates_if_available (E_demo []) U_demo (w_demo fs_staged)) = Inr ()
   \<and> resolve [''main''] (root (snd (apply_pending_updates_if_available (E_demo []) U_demo
        (w_demo fs_staged)))) = Some (Dir [(''a.py'', File ''new''), (''.version'', File ''v2'')])
   \<and> resolve [''next''] (root (snd (apply_pending_updates_if_available (E_demo []) U_demo
        (w_demo fs_staged)))) = None
   \<and> fst (get_version ''main'' (snd (apply_pending_updates_if_available (E_demo []) U_demo
        (w_demo fs_staged)))) = Inr (Some ''v2'')"
proof -
  let ?es = "[(''a.py'', File ''new''), (''.version'', File ''v2'')]"
  let ?ls = "[(''.version'', File ''v1''), (''a.py'', File ''old'')]"
  have 1: "wf_node (root (w_demo fs_staged))" by code_simp
  have 2: "resolve (components (get_module_and_path U_demo ''next'')) (root (w_demo fs_staged))
           = Some (Dir ?es)" by code_simp
  have 3: "map_of ?es ''.version'' = Some (File ''v2'')" by code_simp
  have "resolve (components (get_module_and_path U_demo (main_dir U_demo))) (root (w_demo fs_staged))
          = Some (Dir ?ls) \<and> height (Dir ?ls) \<le> recursion_limit (E_demo [])"
    by code_simp
  then have 4: "resolve (components (get_module_and_path U_demo (main_dir U_demo)))
           (root (w_demo fs_staged)) = None
       \<or> (\<exists>ls. resolve (components (get_module_and_path U_demo (main_dir U_demo)))
                  (root (w_demo fs_staged)) = Some (Dir ls)
                \<and> height (Dir ls) \<le> recursion_limit (E_demo []))"
    by blast
  have 5: "is_dir_at (butlast (components (get_module_and_path U_demo (main_dir U_demo))))
             (root (w_demo fs_staged))" by code_simp
  have 6: "\<not> prefix (components (get_module_and_path U_demo ''next''))
                   (components (get_module_and_path U_demo (main_dir U_demo)))" by code_simp
  have 7: "\<not> prefix (components (get_module_and_path U_demo (main_dir U_demo)))
                   (components (get_module_and_path U_demo ''next''))" by code_simp
  have 8: "components (get_module_and_path U_demo (main_dir U_demo)) = [''main'']"
    "components (get_module_and_path U_demo ''next'') = [''next'']"
    "get_module_and_path U_demo (main_dir U_demo) = ''main''"
    "components ''main'' = [''main'']"
    by code_simp+
  from C2_promote_staging [OF 1 2 3 4 5 6 7] show ?thesis
    by (simp add: 8)
qed

section \<open>The latest version and the decision to update\<close>

lemma bind_io_Inr_E:
  assumes "bind_io m f w = (Inr y, w')"
  obtains x w1 where "m w = (Inr x, w1)" and "f x w1 = (Inr y, w')"
  using assms by (auto simp: bind_io_def split: prod.splits sum.splits)

lemma except_OSError_Inr:
  "except_OSError m h w = (Inr y, w') \<Longrightarrow> m w = (Inr y, w')"
  by (auto simp: except_OSError_def split: prod.splits sum.splits error.splits)

lemma request_fresh:
  assumes "request E method url data js headers w = (Inr r, w1)"
  shows "r < length (resps w1) \<and> cached (resps w1 ! r) = None \<and> raw (resps w1 ! r) \<noteq> None"
  using assms
  by (auto simp: request_def lift_io_def Response_def set_status_def return_io_def
      elim!: bind_io_Inr_E split: prod.splits)

lemma content_after:
  assumes "r < length (resps w1)" and "cached (resps w1 ! r) = None"
    and "Response_content r w1 = (Inr body, w2)"
  shows "r < length (resps w2) \<and> cached (resps w2 ! r) = Some body \<and> raw (resps w2 ! r) = None"
  using assms
  by (auto simp: Response_content_def sock_read_def sock_io_def sock_close_def set_cached_def
      set_raw_None_def split: option.splits prod.splits sum.splits if_splits)

text \<open>
  C7. When the request for the latest release returns a response, its body can be read
  and decodes to a JSON object, \<open>get_latest_version\<close> does not raise: it returns \<open>None\<close>
  when the object has no field \<open>tag_name\<close> and the value of that field otherwise. The
  value \<open>None\<close> therefore stands for a missing field exactly when the field, where
  present, is not itself \<open>null\<close>, as with the string the release API gives.
\<close>

theorem C7_latest_version:
  assumes "get E (github_repo U @ ''/releases/latest'') w = (Inr r, w1)"
    and "Response_content r w1 = (Inr body, w2)"
    and "loads E body = Some (JObj kv)"
  shows "fst (get_latest_version E U w)
           = Inr (case map_of kv ''tag_name'' of None \<Rightarrow> JNull | Some x \<Rightarrow> x)
       \<and> (map_of kv ''tag_name'' \<noteq> Some JNull
            \<longrightarrow> (fst (get_latest_version E U w) = Inr JNull) = (''tag_name'' \<notin> fst ` set kv))"
proof -
  have f: "r < length (resps w1) \<and> cached (resps w1 ! r) = None"
    using assms(1) request_fresh unfolding get_def by blast
  then have c: "cached (resps w2 ! r) = Some body" and n: "raw (resps w2 ! r) = None"
    using content_after [OF _ _ assms(2)] by auto
  have j1: "Response_json E r w1 = (Inr (JObj kv), w2)"
    using assms(2,3) by (simp add: Response_json_def bind_io_def return_io_def)
  have j2: "Response_json E r w2 = (Inr (JObj kv), w2)"
    using c assms(3) by (simp add: Response_json_def Response_content_def bind_io_def return_io_def)
  have cl: "Response_close r w2 = (Inr (), set_cached r None w2)"
    using n by (simp add: Response_close_def)
  have res: "fst (get_latest_version E U w)
           = Inr (case map_of kv ''tag_name'' of None \<Rightarrow> JNull | Some x \<Rightarrow> x)"
  proof (cases "map_of kv ''tag_name''")
    case None
    then have "''tag_name'' \<notin> fst ` set kv"
      by (simp add: map_of_eq_None_iff)
    with None show ?thesis
      using assms(1) j1
      by (simp add: get_latest_version_def bind_io_def py_in_def lift_io_def return_io_def)
  next
    case (Some x)
    then have "''tag_name'' \<in> fst ` set kv"
      by (metis map_of_eq_None_iff option.distinct(1))
    with Some show ?thesis
      using assms(1) j1 j2 cl
      by (simp add: get_latest_version_def bind_io_def py_in_def py_getitem_def lift_io_def
          return_io_def)
  qed
  have k: "(''tag_name'' \<notin> fst ` set kv) = (map_of kv ''tag_name'' = None)"
    by (simp add: map_of_eq_None_iff)
  show ?thesis
    unfolding res k
    by (cases "map_of kv ''tag_name''") auto
qed

lemma stage_update_not_False: "fst (stage_update E U v w) \<noteq> Inr False"
proof
  assume "fst (stage_update E U v w) = Inr False"
  then obtain w' where "stage_update E U v w = (Inr False, w')"
    by (cases "stage_update E U v w") auto
  then show False
    unfolding stage_update_def
    by (auto elim!: bind_io_Inr_E simp: return_io_def)
qed

text \<open>
  C4. Let the latest version be a string \<open>b\<close> that is not empty. With an installed
  version \<open>a\<close> that is not empty, \<open>download_updates_if_available\<close> stages the update
  (lines 93 to 102) when \<open>b > a\<close> in the lexicographic order of strings, and returns
  \<open>False\<close> otherwise without doing anything more. With no installed version it stages
  the update. Staging never ends with the value \<open>False\<close>, so the two cases show in the
  result.
\<close>

theorem C4_update_decision:
  assumes "get_version (get_module_and_path U (main_dir U)) w = (Inr cur, w')"
    and "get_latest_version E U w' = (Inr (JStr b), w1)"
    and "b \<noteq> []"
  shows "(\<forall>a. cur = Some a \<and> a \<noteq> []
            \<longrightarrow> download_updates_if_available E U w
                  = (if a < b then stage_update E U (JStr b) w1 else (Inr False, w1)))
       \<and> (cur = None \<longrightarrow> download_updates_if_available E U w = stage_update E U (JStr b) w1)
       \<and> fst (stage_update E U (JStr b) w1) \<noteq> Inr False"
  using assms stage_update_not_False [of E U "JStr b" w1]
  by (auto simp: download_updates_if_available_def bind_io_def py_gt_def lift_io_def return_io_def)

text \<open>
  A release \<open>v1.2\<close> with the files \<open>main/a.py\<close> and \<open>main/sub/b.py\<close>, served over five
  connections, and a device with version \<open>v1.0\<close> installed.
\<close>

definition ok_reply :: "string \<Rightarrow> string" where
  "ok_reply body = ''HTTP/1.0 200 OK'' @ crlf @ ''Content-Type: text/plain'' @ crlf @ crlf @ body"

definition remote_file :: "string \<Rightarrow> string \<Rightarrow> json" where
  "remote_file name path =
     JObj [(''type'', JStr ''file''), (''name'', JStr name), (''path'', JStr path),
           (''download_url'', JStr (''https://raw.githubusercontent.com/u/r/refs/tags/v1.2/'' @ path))]"

definition remote_dir :: "string \<Rightarrow> string \<Rightarrow> json" where
  "remote_dir name path =
     JObj [(''type'', JStr ''dir''), (''name'', JStr name), (''path'', JStr path),
           (''download_url'', JNull)]"

definition E_full :: env where
  "E_full =
     \<lparr>network = (\<lambda>n host port.
          if n = 0 then Some (ok_reply ''RELEASE'', 100)
          else if n = 1 then Some (ok_reply ''LIST-MAIN'', 100)
          else if n = 2 then Some (ok_reply ''print(1)'', 100)
          else if n = 3 then Some (ok_reply ''LIST-SUB'', 100)
          else if n = 4 then Some (ok_reply ''print(2)'', 100)
          else None),
      loads = (\<lambda>b.
          if b = ''RELEASE'' then Some (JObj [(''name'', JStr ''r''), (''tag_name'', JStr ''v1.2'')])
          else if b = ''LIST-MAIN''
          then Some (JArr [remote_file ''a.py'' ''main/a.py'', remote_dir ''sub'' ''main/sub''])
          else if b = ''LIST-SUB'' then Some (JArr [remote_file ''b.py'' ''main/sub/b.py''])
          else None),
      dumps = (\<lambda>j. []),
      recursion_limit = 10\<rparr>"

definition fs_v1 :: node where
  "fs_v1 = Dir [(''main'', Dir [(''.version'', File ''v1.0''), (''a.py'', File ''print(0)'')])]"



lemma pair_fst_snd: "fst p = a \<Longrightarrow> p = (a, snd p)"
  by (cases p) simp

theorem C7_latest_version_witness:
  "fst (get_latest_version E_full U_demo (w_demo fs_v1)) = Inr (JStr ''v1.2'')"
proof -
  let ?w1 = "snd (get E_full (github_repo U_demo @ ''/releases/latest'') (w_demo fs_v1))"
  let ?w2 = "snd (Response_content 0 ?w1)"
  have "fst (get E_full (github_repo U_demo @ ''/releases/latest'') (w_demo fs_v1)) = Inr 0"
    by code_simp
  then have 1: "get E_full (github_repo U_demo @ ''/releases/latest'') (w_demo fs_v1) = (Inr 0, ?w1)"
    by (rule pair_fst_snd)
  have "fst (Response_content 0 ?w1) = Inr ''RELEASE''"
    by code_simp
  then have 2: "Response_content 0 ?w1 = (Inr ''RELEASE'', ?w2)"
    by (rule pair_fst_snd)
  have 3: "loads E_full ''RELEASE'' = Some (JObj [(''name'', JStr ''r''), (''tag_name'', JStr ''v1.2'')])"
    by (simp add: E_full_def)
  from C7_latest_version [OF 1 2 3] show ?thesis
    by simp
qed

theorem C4_update_decision_witness:
  "''v1.0'' < ''v1.2''
   \<and> download_updates_if_available E_full U_demo (w_demo fs_v1)
       = stage_update E_full U_demo (JStr ''v1.2'')
           (snd (get_latest_version E_full U_demo (w_demo fs_v1)))
   \<and> fst (download_updates_if_available E_full U_demo (w_demo fs_v1)) = Inr True"
proof -
  let ?w1 = "snd (get_latest_version E_full U_demo (w_demo fs_v1))"
  have lt: "''v1.0'' < ''v1.2''"
    by code_simp
  have "fst (get_version (get_module_and_path U_demo (main_dir U_demo)) (w_demo fs_v1)) = Inr (Some ''v1.0'')"
    "snd (get_version (get_module_and_path U_demo (main_dir U_demo)) (w_demo fs_v1)) = w_demo fs_v1"
    by code_simp+
  then have 1: "get_version (get_module_and_path U_demo (main_dir U_demo)) (w_demo fs_v1)
      = (Inr (Some ''v1.0''), w_demo fs_v1)"
    by (metis prod.collapse)
  have "fst (get_latest_version E_full U_demo (w_demo fs_v1)) = Inr (JStr ''v1.2'')"
    by code_simp
  then have 2: "get_latest_version E_full U_demo (w_demo fs_v1) = (Inr (JStr ''v1.2''), ?w1)"
    by (rule pair_fst_snd)
  have 3: "''v1.2'' \<noteq> []" by simp
  have t: "fst (download_updates_if_available E_full U_demo (w_demo fs_v1)) = Inr True"
    by code_simp
  from C4_update_decision [OF 1 2 3] lt t show ?thesis
    by simp
qed

section \<open>The version marker of the staging tree\<close>

text \<open>
  Statements that leave the file system and its history alone: everything the HTTP client
  and the \<open>Response\<close> objects do, and every read of the file system.
\<close>
definition fs_frame :: "'a io \<Rightarrow> bool" where
  "fs_frame m = (\<forall>w. root (snd (m w)) = root w \<and> hist (snd (m w)) = hist w)"

lemma fs_frameD: "fs_frame m \<Longrightarrow> m w = (r, w') \<Longrightarrow> root w' = root w \<and> hist w' = hist w"
  by (auto simp: fs_frame_def dest: spec [of _ w])

lemma fs_frame_return [simp]: "fs_frame (return_io x)"
  by (simp add: fs_frame_def return_io_def)

lemma fs_frame_raise [simp]: "fs_frame (raise_io e)"
  by (simp add: fs_frame_def raise_io_def)

lemma fs_frame_lift [simp]: "fs_frame (lift_io v)"
  by (simp add: fs_frame_def lift_io_def)

lemma fs_frame_bind: "fs_frame m \<Longrightarrow> (\<And>x. fs_frame (f x)) \<Longrightarrow> fs_frame (bind_io m f)"
  unfolding fs_frame_def
proof
  fix w
  assume m: "\<forall>w. root (snd (m w)) = root w \<and> hist (snd (m w)) = hist w"
    and f: "\<And>x. \<forall>w. root (snd (f x w)) = root w \<and> hist (snd (f x w)) = hist w"
  obtain r w' where mw: "m w = (r, w')" by (cases "m w")
  with m have w': "root w' = root w \<and> hist w' = hist w"
    by (metis snd_conv)
  show "root (snd (bind_io m f w)) = root w \<and> hist (snd (bind_io m f w)) = hist w"
  proof (cases r)
    case (Inl e)
    with mw w' show ?thesis by (simp add: bind_io_def)
  next
    case (Inr x)
    with mw w' f [of x] show ?thesis by (simp add: bind_io_def)
  qed
qed

lemma fs_frame_sock_io [simp]: "fs_frame (sock_io s f)"
  by (simp add: fs_frame_def sock_io_def split: prod.splits)

lemma fs_frame_sock_ops [simp]:
  "fs_frame (sock_connect s)" "fs_frame (wrap_socket s)" "fs_frame (sock_write s d)"
  "fs_frame (sock_readline s)" "fs_frame (sock_read s)"
  by (simp_all add: sock_connect_def wrap_socket_def sock_write_def sock_readline_def sock_read_def)

lemma fs_frame_sock_close [simp]: "fs_frame (sock_close s)"
  by (simp add: fs_frame_def sock_close_def)

lemma fs_frame_usocket [simp]: "fs_frame (usocket_socket E host port)"
  by (simp add: fs_frame_def usocket_socket_def split: option.splits prod.splits)

lemma fs_frame_Response [simp]: "fs_frame (Response s)"
  by (simp add: fs_frame_def Response_def)

lemma fs_frame_set_status [simp]: "fs_frame (set_status r a b)"
  by (simp add: fs_frame_def set_status_def)

lemma fs_frame_write_headers [simp]: "fs_frame (write_headers s hs)"
  by (induction hs) (auto intro!: fs_frame_bind)

lemma fs_frame_send_request [simp]: "fs_frame (send_request E s method host path data js headers)"
  unfolding send_request_def
  by (auto intro!: fs_frame_bind split: option.splits list.splits)

lemma fs_frame_read_status [simp]: "fs_frame (read_status s)"
  unfolding read_status_def
  by (auto intro!: fs_frame_bind split: list.splits sum.splits)

lemma read_headers_fs: "root (snd (read_headers s status w)) = root w
    \<and> hist (snd (read_headers s status w)) = hist w"
proof (induction s status w rule: read_headers.induct)
  case (1 s status w)
  obtain r w' where rl: "sock_readline s w = (r, w')" by (cases "sock_readline s w")
  then have w': "root w' = root w \<and> hist w' = hist w"
    using fs_frameD [of "sock_readline s"] by simp
  show ?case
  proof (cases r)
    case (Inl e)
    with rl w' show ?thesis
      by (simp add: read_headers.simps [of s status w])
  next
    case (Inr l)
    with rl w' 1 [OF rl [symmetric] Inr] show ?thesis
      by (simp add: read_headers.simps [of s status w])
  qed
qed

lemma fs_frame_read_headers [simp]: "fs_frame (read_headers s status)"
  by (simp add: fs_frame_def read_headers_fs)

lemma fs_frame_except: "fs_frame m \<Longrightarrow> fs_frame h \<Longrightarrow> fs_frame (except_OSError m h)"
  unfolding fs_frame_def except_OSError_def
  by (auto split: prod.splits sum.splits error.splits) (metis snd_conv)+

lemma fs_frame_request_try [simp]:
  "fs_frame (request_try E s proto method host path data js headers)"
  unfolding request_try_def
  by (auto intro!: fs_frame_bind)

lemma fs_frame_request [simp]: "fs_frame (request E method url data js headers)"
  unfolding request_def
  by (auto intro!: fs_frame_bind fs_frame_except)



lemma fs_frame_Response_content [simp]: "fs_frame (Response_content r)"
  by (auto simp: fs_frame_def Response_content_def sock_read_def sock_io_def sock_close_def
      set_cached_def set_raw_None_def split: option.splits prod.splits sum.splits)

lemma fs_frame_Response_text [simp]: "fs_frame (Response_text r)"
  by (simp add: Response_text_def)



lemma fs_frame_os_listdir [simp]: "fs_frame (os_listdir p)"
  by (auto simp: fs_frame_def os_listdir_def split: option.splits node.splits)

lemma fs_frame_open_read [simp]: "fs_frame (open_read p)"
  by (auto simp: fs_frame_def open_read_def split: option.splits node.splits)










































end
